theory Spec2Isabelle
  imports Main "HOL-Library.AList" "HOL-Library.Sublist"
begin

section \<open>Python values, exceptions and containers\<close>

text \<open>
  The exceptions that the modelled part of \<^verbatim>\<open>app.py\<close> can raise: a missing dictionary key,
  a list index out of range, a failure of \<^verbatim>\<open>urllib.request.urlopen\<close>, a failure while
  decoding the fetched bytes, and a failure inside one of the spaCy pipelines.
\<close>

datatype error = KeyError | IndexError | URLError | UnicodeDecodeError | PipelineError

text \<open>Sequencing of statements that may raise: the first exception ends the computation.\<close>

definition bindE :: "error + 'a \<Rightarrow> ('a \<Rightarrow> error + 'b) \<Rightarrow> error + 'b" where
  "bindE m f = (case m of Inl e \<Rightarrow> Inl e | Inr x \<Rightarrow> f x)"

text \<open>A computation returns when it ends without an exception.\<close>

definition returns :: "error + 'a \<Rightarrow> bool" where
  "returns m = (case m of Inl e \<Rightarrow> False | Inr x \<Rightarrow> True)"

text \<open>A \<^verbatim>\<open>for\<close> loop whose body may raise, threading the loop state.\<close>

fun foldE :: "('a \<Rightarrow> 's \<Rightarrow> error + 's) \<Rightarrow> 'a list \<Rightarrow> 's \<Rightarrow> error + 's" where
  "foldE f [] s = Inr s"
| "foldE f (x # xs) s = (case f x s of Inl e \<Rightarrow> Inl e | Inr s' \<Rightarrow> foldE f xs s')"

text \<open>
  A Python \<^verbatim>\<open>dict\<close> keeps insertion order and overwrites in place, which is what
  \<^const>\<open>AList.update\<close> does on an association list. \<^verbatim>\<open>d[k]\<close> raises \<^verbatim>\<open>KeyError\<close> on a
  missing key.
\<close>

definition dict_get :: "('k \<times> 'v) list \<Rightarrow> 'k \<Rightarrow> error + 'v" where
  "dict_get d k = (case map_of d k of Some v \<Rightarrow> Inr v | None \<Rightarrow> Inl KeyError)"

definition dict_keys :: "('k \<times> 'v) list \<Rightarrow> 'k list" where
  "dict_keys d = map fst d"

text \<open>
  \<^verbatim>\<open>s[a:b]\<close> on a sequence: negative bounds count from the end, all bounds are clamped,
  and an inverted range is empty.
\<close>

definition py_slice :: "'a list \<Rightarrow> int \<Rightarrow> int \<Rightarrow> 'a list" where
  "py_slice xs a b =
     (let n = int (length xs);
          lo = (if a < 0 then max (a + n) 0 else min a n);
          hi = (if b < 0 then max (b + n) 0 else min b n)
      in take (nat (hi - lo)) (drop (nat lo) xs))"

text \<open>
  \<^verbatim>\<open>xs[i] = f(xs[i])\<close> on a list: an index from \<open>- len(xs)\<close> to \<open>-1\<close> counts from the end, and
  an index outside \<open>- len(xs) .. len(xs) - 1\<close> raises \<^verbatim>\<open>IndexError\<close>.
\<close>

definition list_modify :: "'a list \<Rightarrow> int \<Rightarrow> ('a \<Rightarrow> 'a) \<Rightarrow> error + 'a list" where
  "list_modify xs i f =
     (if i < - int (length xs) \<or> int (length xs) \<le> i then Inl IndexError
      else let pos = nat (if 0 \<le> i then i else i + int (length xs))
           in Inr (xs[pos := f (xs ! pos)]))"

section \<open>The identifier generator (class Identifiers)\<close>

text \<open>
  \<^verbatim>\<open>"%s%d" % (prefix, n)\<close> prints the counter in decimal, with a minus sign when negative.
\<close>

definition digit_char :: "nat \<Rightarrow> char" where
  "digit_char d = ''0123456789'' ! d"

definition is_digit :: "char \<Rightarrow> bool" where
  "is_digit c = (c \<in> set ''0123456789'')"

fun dec_nat :: "nat \<Rightarrow> string" where
  "dec_nat n = (if n < 10 then [digit_char n] else dec_nat (n div 10) @ [digit_char (n mod 10)])"

declare dec_nat.simps [simp del]

definition dec_int :: "int \<Rightarrow> string" where
  "dec_int k = (if k < 0 then CHR ''-'' # dec_nat (nat (- k)) else dec_nat (nat k))"

text \<open>
  \<^verbatim>\<open>identifiers = collections.defaultdict(int)\<close>: a dictionary whose missing keys read as 0.
\<close>

type_synonym identifiers = "string \<rightharpoonup> int"

definition counter :: "identifiers \<Rightarrow> string \<Rightarrow> int" where
  "counter ids p = (case ids p of None \<Rightarrow> 0 | Some n \<Rightarrow> n)"

definition Identifiers_reset :: identifiers where
  "Identifiers_reset = Map.empty"

definition Identifiers_new :: "string \<Rightarrow> identifiers \<Rightarrow> string \<times> identifiers" where
  "Identifiers_new p ids =
     (let ids' = ids(p \<mapsto> counter ids p + 1)
      in (p @ dec_int (counter ids' p), ids'))"

text \<open>A sequence of calls of \<^verbatim>\<open>Identifiers.new\<close>, with the identifiers returned in call order.\<close>

fun news :: "string list \<Rightarrow> identifiers \<Rightarrow> string list \<times> identifiers" where
  "news [] ids = ([], ids)"
| "news (p # ps) ids =
     (let (x, ids1) = Identifiers_new p ids; (xs, ids2) = news ps ids1 in (x # xs, ids2))"

definition no_digit_end :: "string \<Rightarrow> bool" where
  "no_digit_end p = (p = [] \<or> \<not> is_digit (last p))"

section \<open>Annotations and views\<close>

text \<open>
  A property value is a string or an integer. A property dictionary is an insertion-ordered
  \<^verbatim>\<open>dict\<close>. The annotation types are the \<^verbatim>\<open>Uri\<close> constants that \<^verbatim>\<open>_add_tool_output\<close>
  passes to \<^verbatim>\<open>add_annotation\<close>.
\<close>

datatype pval = PStr string | PInt int

type_synonym props = "(string \<times> pval) list"

datatype uri = TOKEN | NCHUNK | SENTENCE | NE | DEPENDENCY | GENERIC_RELATION

record annotation =
  at_type :: uri
  ident :: string
  properties :: props

text \<open>
  A view is the list of its annotations, in the order in which \<^verbatim>\<open>view.new_annotation\<close>
  created them.
\<close>

type_synonym view = "annotation list"

definition add_property :: "annotation \<Rightarrow> string \<Rightarrow> pval \<Rightarrow> annotation" where
  "add_property a prop val = a\<lparr>properties := AList.update prop val (properties a)\<rparr>"

definition add_annotation ::
  "view \<Rightarrow> uri \<Rightarrow> string \<Rightarrow> string option \<Rightarrow> int option \<Rightarrow> int option \<Rightarrow> props \<Rightarrow> view" where
  "add_annotation view attype identifier doc_id start end' props =
     (let a0 = \<lparr>at_type = attype, ident = identifier, properties = []\<rparr>;
          a1 = (case doc_id of None \<Rightarrow> a0 | Some d \<Rightarrow> add_property a0 ''document'' (PStr d));
          a2 = (case start of None \<Rightarrow> a1 | Some p \<Rightarrow> add_property a1 ''start'' (PInt p));
          a3 = (case end' of None \<Rightarrow> a2 | Some p \<Rightarrow> add_property a2 ''end'' (PInt p));
          a4 = fold (\<lambda>(prop, val) a. add_property a prop val) props a3
      in view @ [a4])"

text \<open>\<^verbatim>\<open>{**a, **b}\<close>: the entries of \<open>b\<close> are written over those of \<open>a\<close>.\<close>

definition dict_merge :: "('k \<times> 'v) list \<Rightarrow> ('k \<times> 'v) list \<Rightarrow> ('k \<times> 'v) list" where
  "dict_merge a b = fold (\<lambda>(k, v). AList.update k v) b a"

text \<open>
  A dictionary display whose values may raise: the values are evaluated left to right and the
  first exception wins.
\<close>

fun collect :: "(string \<times> (error + pval)) list \<Rightarrow> error + props" where
  "collect [] = Inr []"
| "collect ((k, m) # rest) =
     bindE m (\<lambda>v. bindE (collect rest) (\<lambda>vs. Inr ((k, v) # vs)))"

section \<open>What the spaCy pipelines return\<close>

text \<open>
  The fields of spaCy's objects that \<^verbatim>\<open>app.py\<close> reads. A \<open>tokref\<close> is a token reached through
  another object (\<^verbatim>\<open>tok.head\<close>, \<^verbatim>\<open>ent.root\<close>).
\<close>

record tokref =
  ref_idx :: int
  ref_text :: string
  ref_lemma :: string
  ref_i :: int

record token =
  tk_idx :: int
  tk_text :: string
  tk_tag :: string
  tk_lemma :: string
  tk_i :: int
  tk_dep :: string
  tk_head :: tokref

record ner_token =
  ner_ent_type :: string
  ner_idx :: int
  ner_text :: string

record span =
  sp_start :: int
  sp_end :: int

text \<open>
  \<^verbatim>\<open>ent._.dbpedia_raw_result\<close> is \<^verbatim>\<open>None\<close> or the JSON object of the linking service; a JSON
  value is a string or something else (a number, a list, an object, null).
\<close>

datatype json = JStr string | JOther

record entity =
  ent_start :: int
  ent_end :: int
  ent_root :: tokref
  ent_kb_id :: string
  dbpedia_raw_result :: "(string \<times> json) list option"

record spacy_doc =
  tokens :: "token list"
  noun_chunks :: "span list"
  sents :: "span list"
  ents :: "entity list"

text \<open>
  What lies outside the repository: the main pipeline \<^verbatim>\<open>nlp\<close>, the global \<^verbatim>\<open>ner\<close>
  (\<^verbatim>\<open>None\<close> unless the uncased model was selected), fetching and decoding a location,
  Python's \<^verbatim>\<open>str.lower\<close> and \<^verbatim>\<open>str.upper\<close>, and the identifier that the MMIF library
  gives to a new view.
\<close>

record env =
  nlp :: "string \<Rightarrow> error + spacy_doc"
  ner :: "(string \<Rightarrow> error + ner_token list) option"
  urlopen :: "string \<Rightarrow> error + string"
  str_lower :: "string \<Rightarrow> string"
  str_upper :: "string \<Rightarrow> string"
  new_view_id :: "string list \<Rightarrow> string"

record document =
  doc_id_of :: string
  doc_at_type :: string
  location :: "string option"
  text_value :: string

section \<open>SpacyApp._read_text\<close>

definition read_text :: "env \<Rightarrow> document \<Rightarrow> error + string" where
  "read_text E textdoc =
     (case location textdoc of
        None \<Rightarrow> Inr (text_value textdoc)
      | Some l \<Rightarrow> if l \<noteq> [] then urlopen E l else Inr (text_value textdoc))"

section \<open>SpacyApp._add_tool_output\<close>

subsection \<open>The uncased pre-pass (lines 132 to 141)\<close>

text \<open>
  The elements of \<^verbatim>\<open>input_text_list\<close> are strings of one character until \<^verbatim>\<open>upper\<close> replaces
  one; \<^verbatim>\<open>"".join\<close> concatenates them. The \<^verbatim>\<open>print\<close> of the result is not modelled.
\<close>

definition uncased_prepass :: "env \<Rightarrow> string \<Rightarrow> error + string" where
  "uncased_prepass E input_text =
     (case ner E of
        None \<Rightarrow> Inr input_text
      | Some ner_model \<Rightarrow>
          bindE (ner_model (str_lower E input_text)) (\<lambda>spacy_doc_ner.
          bindE (foldE (\<lambda>tok input_text_list.
                          if ner_ent_type tok \<noteq> []
                          then list_modify input_text_list (ner_idx tok) (str_upper E)
                          else Inr input_text_list)
                   spacy_doc_ner (map (\<lambda>c. [c]) (str_lower E input_text)))
            (\<lambda>input_text_list. Inr (concat input_text_list))))"

subsection \<open>Tokens and the offset table (lines 151 to 159)\<close>

type_synonym tokdict = "(int \<times> int \<times> int) list"

definition token_step ::
  "string \<Rightarrow> string option \<Rightarrow> nat \<times> token \<Rightarrow> tokdict \<times> view \<times> identifiers
     \<Rightarrow> tokdict \<times> view \<times> identifiers" where
  "token_step text_orig doc_id = (\<lambda>(n, tok) (tok_idx, view, ids).
     let p1 = tk_idx tok;
         p2 = p1 + int (length (tk_text tok));
         tok_idx' = AList.update (int n) (p1, p2) tok_idx;
         (x, ids') = Identifiers_new ''t'' ids
     in (tok_idx',
         add_annotation view TOKEN x doc_id (Some p1) (Some p2)
           [(''pos'', PStr (tk_tag tok)), (''lemma'', PStr (tk_lemma tok)),
            (''text'', PStr (py_slice text_orig p1 p2)), (''i'', PInt (tk_i tok))],
         ids'))"

subsection \<open>Offset alignment of a token-index range\<close>

text \<open>
  \<^verbatim>\<open>p1 = tok_idx[x.start][0]; p2 = tok_idx[x.end - 1][1]\<close>, as written for chunks,
  sentences and entities.
\<close>

definition span_offsets :: "tokdict \<Rightarrow> int \<Rightarrow> int \<Rightarrow> error + int \<times> int" where
  "span_offsets tok_idx start end' =
     bindE (dict_get tok_idx start) (\<lambda>a.
     bindE (dict_get tok_idx (end' - 1)) (\<lambda>b. Inr (fst a, snd b)))"

definition span_step ::
  "uri \<Rightarrow> string \<Rightarrow> string \<Rightarrow> string option \<Rightarrow> tokdict \<Rightarrow> span \<Rightarrow> view \<times> identifiers
     \<Rightarrow> error + view \<times> identifiers" where
  "span_step attype pfx text_orig doc_id tok_idx = (\<lambda>sp (view, ids).
     bindE (span_offsets tok_idx (sp_start sp) (sp_end sp)) (\<lambda>(p1, p2).
       let (x, ids') = Identifiers_new pfx ids
       in Inr (add_annotation view attype x doc_id (Some p1) (Some p2)
                 [(''text'', PStr (py_slice text_orig p1 p2))], ids')))"

subsection \<open>Entity categories (find_dbpedia_type)\<close>

definition interested_types :: "string list" where
  "interested_types = [''Person'', ''Place'', ''Organisation'', ''Device'']"

text \<open>
  Every exception inside the \<^verbatim>\<open>try\<close> block (subscripting \<^verbatim>\<open>None\<close>, a missing
  \<^verbatim>\<open>'@types'\<close>, a value without \<^verbatim>\<open>split\<close>) is caught by the bare \<^verbatim>\<open>except\<close>.
\<close>

definition find_dbpedia_type :: "entity \<Rightarrow> string option" where
  "find_dbpedia_type ent =
     (case dbpedia_raw_result ent of
        None \<Rightarrow> None
      | Some raw \<Rightarrow>
          (case map_of raw ''@types'' of
             None \<Rightarrow> None
           | Some JOther \<Rightarrow> None
           | Some (JStr types) \<Rightarrow>
               find (\<lambda>category. sublist (''DBpedia:'' @ category) types) interested_types))"

subsection \<open>Named entities and the entity registry (lines 186 to 196)\<close>

type_synonym propdict = "(int \<times> props) list"

definition entity_properties :: "string \<Rightarrow> string \<Rightarrow> entity \<Rightarrow> int \<Rightarrow> int \<Rightarrow> props" where
  "entity_properties text_orig category ent p1 p2 =
     (let p1_root = ref_idx (ent_root ent);
          p2_root = p1_root + int (length (ref_text (ent_root ent)))
      in [(''text'', PStr (py_slice text_orig p1 p2)),
          (''category'', PStr category),
          (''root_i'', PInt (ref_i (ent_root ent))),
          (''root_text'', PStr (py_slice text_orig p1_root p2_root)),
          (''kb_id'', PStr (ent_kb_id ent))])"

definition ent_step ::
  "string \<Rightarrow> string option \<Rightarrow> tokdict \<Rightarrow> entity \<Rightarrow> propdict \<times> view \<times> identifiers
     \<Rightarrow> error + propdict \<times> view \<times> identifiers" where
  "ent_step text_orig doc_id tok_idx = (\<lambda>ent (entity_dict, view, ids).
     case find_dbpedia_type ent of
       None \<Rightarrow> Inr (entity_dict, view, ids)
     | Some category \<Rightarrow>
         bindE (span_offsets tok_idx (ent_start ent) (ent_end ent)) (\<lambda>(p1, p2).
           let props = entity_properties text_orig category ent p1 p2;
               entity_dict' = AList.update (ref_i (ent_root ent)) props entity_dict;
               (x, ids') = Identifiers_new ''ne'' ids
           in Inr (entity_dict', add_annotation view NE x doc_id (Some p1) (Some p2) props, ids')))"

subsection \<open>Dependencies and the governor registry (lines 206 to 217)\<close>

definition properties_governer :: "string \<Rightarrow> token \<Rightarrow> props" where
  "properties_governer text_orig tok =
     (let p1_gov = ref_idx (tk_head tok);
          p2_gov = p1_gov + int (length (ref_text (tk_head tok)))
      in [(''dep'', PStr (tk_dep tok)),
          (''governer_text'', PStr (py_slice text_orig p1_gov p2_gov)),
          (''governer_lemma'', PStr (ref_lemma (tk_head tok))),
          (''governer_i'', PInt (ref_i (tk_head tok)))])"

definition properties_dependent :: "string \<Rightarrow> token \<Rightarrow> props" where
  "properties_dependent text_orig tok =
     (let p1_dep = tk_idx tok;
          p2_dep = p1_dep + int (length (tk_text tok))
      in [(''dependent_text'', PStr (py_slice text_orig p1_dep p2_dep)),
          (''dependent_lemma'', PStr (tk_lemma tok)),
          (''dependent_i'', PInt (tk_i tok))])"

definition dep_step ::
  "string \<Rightarrow> string option \<Rightarrow> propdict \<Rightarrow> token \<Rightarrow> propdict \<times> view \<times> identifiers
     \<Rightarrow> propdict \<times> view \<times> identifiers" where
  "dep_step text_orig doc_id entity_dict = (\<lambda>tok (governer_dict, view, ids).
     let props = dict_merge (properties_dependent text_orig tok) (properties_governer text_orig tok);
         governer_dict' =
           (if tk_i tok \<in> set (dict_keys entity_dict)
            then AList.update (tk_i tok) (properties_governer text_orig tok) governer_dict
            else governer_dict);
         (x, ids') = Identifiers_new ''dep'' ids
     in (governer_dict', add_annotation view DEPENDENCY x doc_id None None props, ids'))"

subsection \<open>Relations (lines 220 to 231)\<close>

definition dict_get2 :: "propdict \<Rightarrow> int \<Rightarrow> string \<Rightarrow> error + pval" where
  "dict_get2 d k1 k2 = bindE (dict_get d k1) (\<lambda>props. dict_get props k2)"

definition relation_properties :: "propdict \<Rightarrow> propdict \<Rightarrow> int \<Rightarrow> int \<Rightarrow> error + props" where
  "relation_properties entity_dict governer_dict i1 i2 =
     collect
       [(''rel_text'', dict_get2 governer_dict i1 ''governer_text''),
        (''rel_lemma'', dict_get2 governer_dict i1 ''governer_lemma''),
        (''rel_i'', dict_get2 governer_dict i1 ''governer_i''),
        (''e1_text'', dict_get2 entity_dict i1 ''text''),
        (''e1_root_i'', dict_get2 entity_dict i1 ''root_i''),
        (''e1_kb_id'', dict_get2 entity_dict i1 ''kb_id''),
        (''e1_dep'', dict_get2 governer_dict i1 ''dep''),
        (''e2_text'', dict_get2 entity_dict i2 ''text''),
        (''e2_root_i'', dict_get2 entity_dict i2 ''root_i''),
        (''e2_kb_id'', dict_get2 entity_dict i2 ''kb_id''),
        (''e2_dep'', dict_get2 governer_dict i2 ''dep'')]"

text \<open>
  The body of the inner loop. \<^verbatim>\<open>and\<close> is short-circuit: the governor registry is read only
  when \<^verbatim>\<open>i1 < i2\<close>.
\<close>

definition rel_step ::
  "propdict \<Rightarrow> propdict \<Rightarrow> string option \<Rightarrow> int \<Rightarrow> int \<Rightarrow> view \<times> identifiers
     \<Rightarrow> error + view \<times> identifiers" where
  "rel_step entity_dict governer_dict doc_id i1 = (\<lambda>i2 (view, ids).
     if i1 < i2 then
       bindE (dict_get2 governer_dict i1 ''governer_i'') (\<lambda>g1.
       bindE (dict_get2 governer_dict i2 ''governer_i'') (\<lambda>g2.
         if g1 = g2 then
           bindE (relation_properties entity_dict governer_dict i1 i2) (\<lambda>props.
             let (x, ids') = Identifiers_new ''rel'' ids
             in Inr (add_annotation view GENERIC_RELATION x doc_id None None props, ids'))
         else Inr (view, ids)))
     else Inr (view, ids))"

definition rel_pass ::
  "propdict \<Rightarrow> propdict \<Rightarrow> string option \<Rightarrow> view \<times> identifiers \<Rightarrow> error + view \<times> identifiers" where
  "rel_pass entity_dict governer_dict doc_id =
     foldE (\<lambda>i1. foldE (rel_step entity_dict governer_dict doc_id i1) (dict_keys entity_dict))
       (dict_keys entity_dict)"

subsection \<open>The passes in sequence\<close>

definition token_pass ::
  "string \<Rightarrow> string option \<Rightarrow> spacy_doc \<Rightarrow> view \<times> identifiers \<Rightarrow> tokdict \<times> view \<times> identifiers" where
  "token_pass text_orig doc_id sd = (\<lambda>(view, ids).
     fold (token_step text_orig doc_id) (enumerate 0 (tokens sd)) ([], view, ids))"

definition ent_pass ::
  "string \<Rightarrow> string option \<Rightarrow> tokdict \<Rightarrow> spacy_doc \<Rightarrow> view \<times> identifiers
     \<Rightarrow> error + propdict \<times> view \<times> identifiers" where
  "ent_pass text_orig doc_id tok_idx sd = (\<lambda>(view, ids).
     foldE (ent_step text_orig doc_id tok_idx) (ents sd) ([], view, ids))"

definition dep_pass ::
  "string \<Rightarrow> string option \<Rightarrow> propdict \<Rightarrow> spacy_doc \<Rightarrow> view \<times> identifiers
     \<Rightarrow> propdict \<times> view \<times> identifiers" where
  "dep_pass text_orig doc_id entity_dict sd = (\<lambda>(view, ids).
     fold (dep_step text_orig doc_id entity_dict) (tokens sd) ([], view, ids))"

text \<open>
  Everything after the pipeline has run: the annotation of one parsed document, with the
  original text for the \<^verbatim>\<open>text\<close> attributes.
\<close>

definition annotate_doc ::
  "string \<Rightarrow> string option \<Rightarrow> spacy_doc \<Rightarrow> view \<times> identifiers \<Rightarrow> error + view \<times> identifiers" where
  "annotate_doc text_orig doc_id sd s0 =
     (let (tok_idx, s1) = token_pass text_orig doc_id sd s0 in
      bindE (foldE (span_step NCHUNK ''nc'' text_orig doc_id tok_idx) (noun_chunks sd) s1) (\<lambda>s2.
      bindE (foldE (span_step SENTENCE ''s'' text_orig doc_id tok_idx) (sents sd) s2) (\<lambda>s3.
      bindE (ent_pass text_orig doc_id tok_idx sd s3) (\<lambda>(entity_dict, s4).
        let (governer_dict, s5) = dep_pass text_orig doc_id entity_dict sd s4
        in rel_pass entity_dict governer_dict doc_id s5))))"

definition add_tool_output ::
  "env \<Rightarrow> document \<Rightarrow> view \<Rightarrow> string option \<Rightarrow> identifiers \<Rightarrow> error + view \<times> identifiers" where
  "add_tool_output E doc view doc_id ids =
     bindE (read_text E doc) (\<lambda>text_orig.
     bindE (uncased_prepass E text_orig) (\<lambda>input_text.
     bindE (nlp E input_text) (\<lambda>sd.
       annotate_doc text_orig doc_id sd (view, ids))))"

section \<open>SpacyApp._annotate\<close>

text \<open>
  An MMIF view has an identifier, its annotations, and the text documents that it holds
  (\<^verbatim>\<open>get_documents_in_view\<close>).
\<close>

record mmif_view =
  view_id :: string
  view_annotations :: view
  view_documents :: "document list"

record mmif =
  documents :: "document list"
  views :: "mmif_view list"

text \<open>
  \<^verbatim>\<open>TEXT_DOCUMENT\<close> is the base name of the MMIF vocabulary's type of text documents.
\<close>

definition TEXT_DOCUMENT :: string where
  "TEXT_DOCUMENT = ''TextDocument''"

definition text_documents :: "document list \<Rightarrow> document list" where
  "text_documents docs = filter (\<lambda>doc. suffix TEXT_DOCUMENT (doc_at_type doc)) docs"

text \<open>\<^verbatim>\<open>_new_view\<close>: an empty view with a new identifier; the metadata is not modelled.\<close>

definition new_view :: "env \<Rightarrow> mmif \<Rightarrow> mmif_view" where
  "new_view E m =
     \<lparr>view_id = new_view_id E (map view_id (views m)), view_annotations = [], view_documents = []\<rparr>"

definition annotate_document_step ::
  "env \<Rightarrow> document \<Rightarrow> mmif \<times> identifiers \<Rightarrow> error + mmif \<times> identifiers" where
  "annotate_document_step E = (\<lambda>doc (m, ids).
     let v = new_view E m in
     bindE (add_tool_output E doc (view_annotations v) None ids) (\<lambda>(anns, ids').
       Inr (m\<lparr>views := views m @ [v\<lparr>view_annotations := anns\<rparr>]\<rparr>, ids')))"

definition annotate_view_step ::
  "env \<Rightarrow> mmif_view \<Rightarrow> mmif \<times> identifiers \<Rightarrow> error + mmif \<times> identifiers" where
  "annotate_view_step E = (\<lambda>view (m, ids).
     let docs = view_documents view in
     if docs \<noteq> [] then
       let v = new_view E m in
       bindE (foldE (\<lambda>doc (anns, ids).
                       add_tool_output E doc anns (Some (view_id view @ '':'' @ doc_id_of doc)) ids)
                docs (view_annotations v, ids)) (\<lambda>(anns, ids').
         Inr (m\<lparr>views := views m @ [v\<lparr>view_annotations := anns\<rparr>]\<rparr>, ids'))
     else Inr (m, ids))"

text \<open>
  The body of \<^verbatim>\<open>_annotate\<close> after its first statement, from a given state of the counters.
\<close>

definition annotate_from :: "env \<Rightarrow> mmif \<Rightarrow> identifiers \<Rightarrow> error + mmif \<times> identifiers" where
  "annotate_from E m ids =
     bindE (foldE (annotate_document_step E) (text_documents (documents m)) (m, ids)) (\<lambda>(m1, ids1).
       foldE (annotate_view_step E) (views m1) (m1, ids1))"

text \<open>\<^verbatim>\<open>_annotate\<close>, called when the class-level counters are \<open>ids\<close>.\<close>

definition annotate :: "env \<Rightarrow> mmif \<Rightarrow> identifiers \<Rightarrow> error + mmif \<times> identifiers" where
  "annotate E m ids = (let ids0 = Identifiers_reset in annotate_from E m ids0)"

section \<open>Predicates used in the statements\<close>

subsection \<open>Identifiers minted so far\<close>

text \<open>
  An identifier has been minted under the counters \<open>ids\<close> when it is a prefix without a final
  digit followed by a positive number that the prefix's counter has reached.
\<close>

definition minted :: "identifiers \<Rightarrow> string \<Rightarrow> bool" where
  "minted ids x = (\<exists>p k. x = p @ dec_int k \<and> no_digit_end p \<and> 0 < k \<and> k \<le> counter ids p)"

definition ids_ok :: "string list \<Rightarrow> identifiers \<Rightarrow> bool" where
  "ids_ok G ids = (distinct G \<and> (\<forall>x \<in> set G. minted ids x) \<and> (\<forall>p. 0 \<le> counter ids p))"

text \<open>
  A step from one state of a view and the counters to a later one appends annotations whose
  identifiers are new with respect to any identifiers minted before.
\<close>

definition extends :: "view \<times> identifiers \<Rightarrow> view \<times> identifiers \<Rightarrow> bool" where
  "extends s s' =
     (\<exists>new. fst s' = fst s @ new \<and>
        (\<forall>G. ids_ok G (snd s) \<longrightarrow> ids_ok (G @ map ident new) (snd s')))"

text \<open>The identifiers of all annotations of a list of views.\<close>

definition view_idents :: "mmif_view list \<Rightarrow> string list" where
  "view_idents vs = concat (map (\<lambda>v. map ident (view_annotations v)) vs)"

text \<open>The same for a step of \<^verbatim>\<open>_annotate\<close>, which appends views.\<close>

definition batch_extends :: "mmif \<times> identifiers \<Rightarrow> mmif \<times> identifiers \<Rightarrow> bool" where
  "batch_extends s s' =
     (\<exists>vs. views (fst s') = views (fst s) @ vs \<and>
        (\<forall>G. ids_ok G (snd s) \<longrightarrow> ids_ok (G @ view_idents vs) (snd s')))"

subsection \<open>Character spans and text attributes\<close>

text \<open>The entry of the offset table for a token: its start, and its start plus its length.\<close>

definition token_span :: "token \<Rightarrow> int \<times> int" where
  "token_span tok = (tk_idx tok, tk_idx tok + int (length (tk_text tok)))"








text \<open>A pass appends only annotations that satisfy \<open>Q\<close>.\<close>

definition appends :: "(annotation \<Rightarrow> bool) \<Rightarrow> view \<Rightarrow> view \<Rightarrow> bool" where
  "appends Q v v' = (\<exists>new. v' = v @ new \<and> (\<forall>a \<in> set new. Q a))"

subsection \<open>The offset table and the records of a parsed document\<close>

text \<open>
  The offset table of a parsed document, as the token loop builds it: token index \<open>k\<close> is
  mapped to the span of token \<open>k\<close>, and no other key is present.
\<close>

definition offset_table :: "spacy_doc \<Rightarrow> int \<Rightarrow> (int \<times> int) option" where
  "offset_table sd k =
     (if 0 \<le> k \<and> k < int (length (tokens sd)) then Some (token_span (tokens sd ! nat k))
      else None)"

text \<open>
  The character span of a token-index range \<open>[start, end)\<close> read off that table: the first
  component of the entry for \<open>start\<close> and the second component of the entry for \<open>end - 1\<close>;
  once as the pair of property values that an annotation reports, once as a pair of integers
  that exists when both entries do.
\<close>

definition table_span :: "spacy_doc \<Rightarrow> int \<Rightarrow> int \<Rightarrow> pval option \<times> pval option" where
  "table_span sd start end' =
     (map_option (\<lambda>e. PInt (fst e)) (offset_table sd start),
      map_option (\<lambda>e. PInt (snd e)) (offset_table sd (end' - 1)))"

definition aligned :: "spacy_doc \<Rightarrow> int \<Rightarrow> int \<Rightarrow> (int \<times> int) option" where
  "aligned sd start end' =
     (case offset_table sd start of
        None \<Rightarrow> None
      | Some a \<Rightarrow> (case offset_table sd (end' - 1) of None \<Rightarrow> None | Some b \<Rightarrow> Some (fst a, snd b)))"

text \<open>
  Every chunk, every sentence and every entity with a category is a non-empty range of the
  document's tokens.
\<close>

definition in_doc :: "spacy_doc \<Rightarrow> int \<Rightarrow> int \<Rightarrow> bool" where
  "in_doc sd start end' = (0 \<le> start \<and> start < end' \<and> end' \<le> int (length (tokens sd)))"

definition units_in_range :: "spacy_doc \<Rightarrow> bool" where
  "units_in_range sd =
     (list_all (\<lambda>sp. in_doc sd (sp_start sp) (sp_end sp)) (noun_chunks sd) \<and>
      list_all (\<lambda>sp. in_doc sd (sp_start sp) (sp_end sp)) (sents sd) \<and>
      list_all (\<lambda>e. in_doc sd (ent_start e) (ent_end e))
        (filter (\<lambda>e. find_dbpedia_type e \<noteq> None) (ents sd)))"

text \<open>
  The properties that \<^verbatim>\<open>add_annotation\<close> is given for each kind of annotation, with the
  offsets that it stores as \<^verbatim>\<open>start\<close> and \<^verbatim>\<open>end\<close>; \<open>docpart\<close> is the \<^verbatim>\<open>document\<close> property.
\<close>

definition docpart :: "string option \<Rightarrow> props" where
  "docpart doc_id = (case doc_id of None \<Rightarrow> [] | Some d \<Rightarrow> [(''document'', PStr d)])"

definition token_record :: "string \<Rightarrow> token \<Rightarrow> props" where
  "token_record text_orig tok =
     [(''start'', PInt (fst (token_span tok))), (''end'', PInt (snd (token_span tok))),
      (''pos'', PStr (tk_tag tok)), (''lemma'', PStr (tk_lemma tok)),
      (''text'', PStr (py_slice text_orig (fst (token_span tok)) (snd (token_span tok)))),
      (''i'', PInt (tk_i tok))]"

definition span_record :: "string \<Rightarrow> int \<times> int \<Rightarrow> props" where
  "span_record text_orig sp =
     [(''start'', PInt (fst sp)), (''end'', PInt (snd sp)),
      (''text'', PStr (py_slice text_orig (fst sp) (snd sp)))]"

definition ent_record :: "string \<Rightarrow> string \<Rightarrow> entity \<Rightarrow> int \<times> int \<Rightarrow> props" where
  "ent_record text_orig category ent sp =
     [(''start'', PInt (fst sp)), (''end'', PInt (snd sp)),
      (''text'', PStr (py_slice text_orig (fst sp) (snd sp))),
      (''category'', PStr category),
      (''root_i'', PInt (ref_i (ent_root ent))),
      (''root_text'', PStr (py_slice text_orig (ref_idx (ent_root ent))
                             (ref_idx (ent_root ent) + int (length (ref_text (ent_root ent)))))),
      (''kb_id'', PStr (ent_kb_id ent))]"

definition dep_record :: "string \<Rightarrow> token \<Rightarrow> props" where
  "dep_record text_orig tok =
     [(''dependent_text'', PStr (py_slice text_orig (tk_idx tok) (tk_idx tok + int (length (tk_text tok))))),
      (''dependent_lemma'', PStr (tk_lemma tok)),
      (''dependent_i'', PInt (tk_i tok)),
      (''dep'', PStr (tk_dep tok)),
      (''governer_text'', PStr (py_slice text_orig (ref_idx (tk_head tok))
                                 (ref_idx (tk_head tok) + int (length (ref_text (tk_head tok)))))),
      (''governer_lemma'', PStr (ref_lemma (tk_head tok))),
      (''governer_i'', PInt (ref_i (tk_head tok)))]"

subsection \<open>Entity-type lookups that fail\<close>

text \<open>
  The linking service's metadata is missing or malformed: there is no raw result, or it has
  no \<^verbatim>\<open>'@types'\<close> entry, or that entry is not a string.
\<close>

definition lookup_fails :: "entity \<Rightarrow> bool" where
  "lookup_fails ent =
     (case dbpedia_raw_result ent of
        None \<Rightarrow> True
      | Some raw \<Rightarrow> (case map_of raw ''@types'' of Some (JStr types) \<Rightarrow> False | _ \<Rightarrow> True))"

subsection \<open>The uncased pre-pass as the specification words it\<close>

text \<open>
  The specification's reading of the pre-pass: lowercase the whole text, then uppercase every
  character position covered by a token that the uncased model marks as part of an entity.
\<close>

definition covered :: "ner_token \<Rightarrow> nat \<Rightarrow> bool" where
  "covered tok j = (ner_idx tok \<le> int j \<and> int j < ner_idx tok + int (length (ner_text tok)))"

definition spec_uncased_input :: "env \<Rightarrow> ner_token list \<Rightarrow> string \<Rightarrow> string" where
  "spec_uncased_input E toks txt =
     (let lo = str_lower E txt
      in concat (map (\<lambda>j. if list_ex (\<lambda>tok. ner_ent_type tok \<noteq> [] \<and> covered tok j) toks
                           then str_upper E [lo ! j] else [lo ! j])
                   [0..<length lo]))"

text \<open>
  What the code does at position \<open>j\<close>: one application of \<^verbatim>\<open>upper\<close> for every entity token
  that starts there.
\<close>

definition starts_at :: "ner_token list \<Rightarrow> nat \<Rightarrow> nat" where
  "starts_at toks j = length (filter (\<lambda>tok. ner_ent_type tok \<noteq> [] \<and> ner_idx tok = int j) toks)"

definition truecased :: "env \<Rightarrow> ner_token list \<Rightarrow> string \<Rightarrow> string" where
  "truecased E toks txt =
     (let lo = str_lower E txt
      in concat (map (\<lambda>j. (str_upper E ^^ starts_at toks j) [lo ! j]) [0..<length lo]))"

subsection \<open>Entity heads and governors of a parsed document\<close>

text \<open>
  The head positions that enter the entity registry, the governor index that the governor
  registry holds for a position (the last token with that index wins), and the condition that
  every entity's root is a token of the document.
\<close>

definition entity_heads :: "spacy_doc \<Rightarrow> int list" where
  "entity_heads sd = map (\<lambda>e. ref_i (ent_root e)) (filter (\<lambda>e. find_dbpedia_type e \<noteq> None) (ents sd))"

definition governor_i :: "spacy_doc \<Rightarrow> int \<Rightarrow> int" where
  "governor_i sd k = ref_i (tk_head (last (filter (\<lambda>tok. tk_i tok = k) (tokens sd))))"

definition roots_in_doc :: "spacy_doc \<Rightarrow> bool" where
  "roots_in_doc sd = (\<forall>e \<in> set (ents sd). list_ex (\<lambda>tok. tk_i tok = ref_i (ent_root e)) (tokens sd))"

text \<open>
  The relation record of lines 223 to 228 with the registry lookups resolved: \<open>tok1\<close> and
  \<open>tok2\<close> are the tokens whose governor entries are read, \<open>e1\<close> and \<open>e2\<close> the entities, with
  their character spans.
\<close>

definition relation_record ::
  "string \<Rightarrow> token \<Rightarrow> token \<Rightarrow> entity \<Rightarrow> int \<times> int \<Rightarrow> entity \<Rightarrow> int \<times> int \<Rightarrow> props" where
  "relation_record text_orig tok1 tok2 e1 span1 e2 span2 =
     [(''rel_text'', PStr (py_slice text_orig (ref_idx (tk_head tok1))
                            (ref_idx (tk_head tok1) + int (length (ref_text (tk_head tok1)))))),
      (''rel_lemma'', PStr (ref_lemma (tk_head tok1))),
      (''rel_i'', PInt (ref_i (tk_head tok1))),
      (''e1_text'', PStr (py_slice text_orig (fst span1) (snd span1))),
      (''e1_root_i'', PInt (ref_i (ent_root e1))),
      (''e1_kb_id'', PStr (ent_kb_id e1)),
      (''e1_dep'', PStr (tk_dep tok1)),
      (''e2_text'', PStr (py_slice text_orig (fst span2) (snd span2))),
      (''e2_root_i'', PInt (ref_i (ent_root e2))),
      (''e2_kb_id'', PStr (ent_kb_id e2)),
      (''e2_dep'', PStr (tk_dep tok2))]"

text \<open>What the two registries hold for a head position \<open>k\<close>.\<close>

definition entity_entry :: "string \<Rightarrow> propdict \<Rightarrow> int \<Rightarrow> bool" where
  "entity_entry t ed k =
     (\<exists>c e p1 p2. map_of ed k = Some (entity_properties t c e p1 p2) \<and> ref_i (ent_root e) = k)"

definition governor_entry :: "string \<Rightarrow> spacy_doc \<Rightarrow> propdict \<Rightarrow> int \<Rightarrow> bool" where
  "governor_entry t sd gd k =
     (\<exists>tok. map_of gd k = Some (properties_governer t tok) \<and> ref_i (tk_head tok) = governor_i sd k)"

definition relation_between :: "int \<Rightarrow> int \<Rightarrow> annotation \<Rightarrow> bool" where
  "relation_between i1 i2 a =
     (at_type a = GENERIC_RELATION \<and>
      map_of (properties a) ''e1_root_i'' = Some (PInt i1) \<and>
      map_of (properties a) ''e2_root_i'' = Some (PInt i2))"

text \<open>
  The condition of line 222 on two head positions, and the number of relation annotations
  between two positions in a view.
\<close>

definition linked :: "spacy_doc \<Rightarrow> int \<Rightarrow> int \<Rightarrow> bool" where
  "linked sd i1 i2 = (i1 < i2 \<and> governor_i sd i1 = governor_i sd i2)"

definition relations_between :: "int \<Rightarrow> int \<Rightarrow> view \<Rightarrow> nat" where
  "relations_between i1 i2 v = length (filter (relation_between i1 i2) v)"

definition relations :: "view \<Rightarrow> nat" where
  "relations v = length (filter (\<lambda>a. at_type a = GENERIC_RELATION) v)"

subsection \<open>The annotations of a parsed document\<close>

text \<open>
  An annotation of a parsed document: its properties are the document property followed by
  the record of a token, of a chunk, of a sentence, of an entity with a category, of a
  dependency, or of a relation between two entities, each with the offsets of that unit.
\<close>

definition emitted :: "string \<Rightarrow> string option \<Rightarrow> spacy_doc \<Rightarrow> annotation \<Rightarrow> bool" where
  "emitted text_orig doc_id sd a =
     (\<exists>ps. properties a = docpart doc_id @ ps \<and>
        (at_type a = TOKEN \<and> (\<exists>tok \<in> set (tokens sd). ps = token_record text_orig tok) \<or>
         at_type a = NCHUNK \<and>
           (\<exists>sp \<in> set (noun_chunks sd). \<exists>span.
              aligned sd (sp_start sp) (sp_end sp) = Some span \<and> ps = span_record text_orig span) \<or>
         at_type a = SENTENCE \<and>
           (\<exists>sp \<in> set (sents sd). \<exists>span.
              aligned sd (sp_start sp) (sp_end sp) = Some span \<and> ps = span_record text_orig span) \<or>
         at_type a = NE \<and>
           (\<exists>e \<in> set (ents sd). \<exists>c span.
              find_dbpedia_type e = Some c \<and> aligned sd (ent_start e) (ent_end e) = Some span \<and>
              ps = ent_record text_orig c e span) \<or>
         at_type a = DEPENDENCY \<and> (\<exists>tok \<in> set (tokens sd). ps = dep_record text_orig tok) \<or>
         at_type a = GENERIC_RELATION \<and>
           (\<exists>tok1 \<in> set (tokens sd). \<exists>tok2 \<in> set (tokens sd).
            \<exists>e1 \<in> set (ents sd). \<exists>e2 \<in> set (ents sd). \<exists>span1 span2.
              aligned sd (ent_start e1) (ent_end e1) = Some span1 \<and>
              aligned sd (ent_start e2) (ent_end e2) = Some span2 \<and>
              ps = relation_record text_orig tok1 tok2 e1 span1 e2 span2)))"

text \<open>What the registries hold, by the unit of the document that each entry was written for.\<close>

definition entity_sourced :: "string \<Rightarrow> spacy_doc \<Rightarrow> props \<Rightarrow> bool" where
  "entity_sourced text_orig sd ps =
     (\<exists>e \<in> set (ents sd). \<exists>c span.
        aligned sd (ent_start e) (ent_end e) = Some span \<and>
        ps = entity_properties text_orig c e (fst span) (snd span))"

definition governor_sourced :: "string \<Rightarrow> spacy_doc \<Rightarrow> props \<Rightarrow> bool" where
  "governor_sourced text_orig sd ps = (\<exists>tok \<in> set (tokens sd). ps = properties_governer text_orig tok)"

definition dict_all :: "(props \<Rightarrow> bool) \<Rightarrow> propdict \<Rightarrow> bool" where
  "dict_all P d = (\<forall>(k, ps) \<in> set d. P ps)"

section \<open>A worked example\<close>

text \<open>
  The text \<^verbatim>\<open>Jim loves PBS\<close>: three tokens, two linked entities that both depend on the verb,
  one sentence and two noun chunks. Case mapping is that of ASCII letters.
\<close>

definition ascii_upper :: "string \<Rightarrow> string" where
  "ascii_upper =
     map (\<lambda>c. let n = of_char c :: nat in if 97 \<le> n \<and> n \<le> 122 then char_of (n - 32) else c)"

definition ascii_lower :: "string \<Rightarrow> string" where
  "ascii_lower =
     map (\<lambda>c. let n = of_char c :: nat in if 65 \<le> n \<and> n \<le> 90 then char_of (n + 32) else c)"

definition ex_loves :: tokref where
  "ex_loves = \<lparr>ref_idx = 4, ref_text = ''loves'', ref_lemma = ''love'', ref_i = 1\<rparr>"

definition ex_tokens :: "token list" where
  "ex_tokens =
     [\<lparr>tk_idx = 0, tk_text = ''Jim'', tk_tag = ''NNP'', tk_lemma = ''Jim'', tk_i = 0,
        tk_dep = ''nsubj'', tk_head = ex_loves\<rparr>,
      \<lparr>tk_idx = 4, tk_text = ''loves'', tk_tag = ''VBZ'', tk_lemma = ''love'', tk_i = 1,
        tk_dep = ''ROOT'', tk_head = ex_loves\<rparr>,
      \<lparr>tk_idx = 10, tk_text = ''PBS'', tk_tag = ''NNP'', tk_lemma = ''PBS'', tk_i = 2,
        tk_dep = ''dobj'', tk_head = ex_loves\<rparr>]"

definition ex_ents :: "entity list" where
  "ex_ents =
     [\<lparr>ent_start = 0, ent_end = 1,
        ent_root = \<lparr>ref_idx = 0, ref_text = ''Jim'', ref_lemma = ''Jim'', ref_i = 0\<rparr>,
        ent_kb_id = ''http://dbpedia.org/resource/Jim_Lehrer'',
        dbpedia_raw_result = Some [(''@URI'', JStr ''http://dbpedia.org/resource/Jim_Lehrer''),
                                   (''@types'', JStr ''Schema:Person,DBpedia:Agent,DBpedia:Person'')]\<rparr>,
      \<lparr>ent_start = 2, ent_end = 3,
        ent_root = \<lparr>ref_idx = 10, ref_text = ''PBS'', ref_lemma = ''PBS'', ref_i = 2\<rparr>,
        ent_kb_id = ''http://dbpedia.org/resource/PBS'',
        dbpedia_raw_result = Some [(''@URI'', JStr ''http://dbpedia.org/resource/PBS''),
                                   (''@types'', JStr ''DBpedia:Agent,DBpedia:Organisation'')]\<rparr>]"

definition ex_doc :: spacy_doc where
  "ex_doc = \<lparr>tokens = ex_tokens,
             noun_chunks = [\<lparr>sp_start = 0, sp_end = 1\<rparr>, \<lparr>sp_start = 2, sp_end = 3\<rparr>],
             sents = [\<lparr>sp_start = 0, sp_end = 3\<rparr>],
             ents = ex_ents\<rparr>"

definition ex_env :: env where
  "ex_env = \<lparr>nlp = (\<lambda>_. Inr ex_doc), ner = None, urlopen = (\<lambda>_. Inl URLError),
             str_lower = ascii_lower, str_upper = ascii_upper, new_view_id = (\<lambda>_. ''v_0'')\<rparr>"

definition ex_textdoc :: document where
  "ex_textdoc = \<lparr>doc_id_of = ''d1'', doc_at_type = ''http://mmif.clams.ai/0.4.0/vocabulary/TextDocument'',
                 location = None, text_value = ''Jim loves PBS''\<rparr>"

definition ex_mmif :: mmif where
  "ex_mmif = \<lparr>documents = [ex_textdoc], views = []\<rparr>"

text \<open>The same with the uncased model selected, and with a document that has a location.\<close>

definition ex_ner_tokens :: "ner_token list" where
  "ex_ner_tokens =
     [\<lparr>ner_ent_type = ''PER'', ner_idx = 0, ner_text = ''jim''\<rparr>,
      \<lparr>ner_ent_type = [], ner_idx = 4, ner_text = ''loves''\<rparr>,
      \<lparr>ner_ent_type = ''ORG'', ner_idx = 10, ner_text = ''pbs''\<rparr>]"

definition ex_env_uncased :: env where
  "ex_env_uncased = ex_env\<lparr>ner := Some (\<lambda>_. Inr ex_ner_tokens)\<rparr>"

definition ex_unlinked_ent :: entity where
  "ex_unlinked_ent = (hd ex_ents)\<lparr>dbpedia_raw_result := Some [(''@URI'', JStr ''http://dbpedia.org/resource/Jim'')]\<rparr>"

definition ex_table :: tokdict where
  "ex_table = fst (token_pass ''Jim loves PBS'' None ex_doc ([], Identifiers_reset))"

definition ex_entity_dict :: propdict where
  "ex_entity_dict =
     [(0, entity_properties ''Jim loves PBS'' ''Person'' (ex_ents ! 0) 0 3),
      (2, entity_properties ''Jim loves PBS'' ''Organisation'' (ex_ents ! 1) 10 13)]"

definition ex_governer_dict :: propdict where
  "ex_governer_dict =
     [(0, properties_governer ''Jim loves PBS'' (ex_tokens ! 0)),
      (2, properties_governer ''Jim loves PBS'' (ex_tokens ! 2))]"



text \<open>
  The same parse with an empty \<^verbatim>\<open>'@types'\<close> for the second entity, as the linking service
  returns for a resource without types; a second text document; a view that holds the remote
  document.
\<close>

definition ex_doc_untyped :: spacy_doc where
  "ex_doc_untyped =
     ex_doc\<lparr>ents := [ex_ents ! 0,
                      (ex_ents ! 1)\<lparr>dbpedia_raw_result :=
                         Some [(''@URI'', JStr ''http://dbpedia.org/resource/PBS''), (''@types'', JStr [])]\<rparr>]\<rparr>"

definition ex_env_untyped :: env where
  "ex_env_untyped = ex_env\<lparr>nlp := (\<lambda>_. Inr ex_doc_untyped)\<rparr>"


section \<open>Decimal numerals\<close>

lemma digit_char_is_digit: "d < 10 \<Longrightarrow> is_digit (digit_char d)"
proof -
  assume "d < 10"
  then have "d < length ''0123456789''" by simp
  then have "''0123456789'' ! d \<in> set ''0123456789''" by (rule nth_mem)
  then show ?thesis by (simp only: is_digit_def digit_char_def)
qed

lemma digit_char_inj: "d < 10 \<Longrightarrow> e < 10 \<Longrightarrow> digit_char d = digit_char e \<Longrightarrow> d = e"
proof -
  assume a: "d < 10" "e < 10" "digit_char d = digit_char e"
  have dist: "distinct ''0123456789''" by simp
  from a have "d < length ''0123456789''" "e < length ''0123456789''" by simp_all
  with dist a(3) show ?thesis
    unfolding digit_char_def by (simp only: nth_eq_iff_index_eq)
qed

lemma dec_nat_digits: "\<forall>c \<in> set (dec_nat n). is_digit c"
proof (induction n rule: dec_nat.induct)
  case (1 n)
  show ?case
  proof (cases "n < 10")
    case True
    then show ?thesis by (subst dec_nat.simps) (simp add: digit_char_is_digit)
  next
    case False
    with 1 show ?thesis
      by (subst dec_nat.simps) (simp add: digit_char_is_digit)
  qed
qed

lemma dec_nat_nonempty: "dec_nat n \<noteq> []"
  by (subst dec_nat.simps) simp

lemma dec_nat_inj: "dec_nat n = dec_nat m \<Longrightarrow> n = m"
proof (induction n arbitrary: m rule: dec_nat.induct)
  case (1 n)
  show ?case
  proof (cases "n < 10")
    case n: True
    show ?thesis
    proof (cases "m < 10")
      case True
      with n 1(2) show ?thesis
        by (simp add: dec_nat.simps [of n] dec_nat.simps [of m] digit_char_inj)
    next
      case False
      with n 1(2) show ?thesis
        by (simp add: dec_nat.simps [of n] dec_nat.simps [of m] dec_nat_nonempty
            dec_nat_nonempty [symmetric])
    qed
  next
    case n: False
    show ?thesis
    proof (cases "m < 10")
      case True
      with n 1(2) show ?thesis
        by (simp add: dec_nat.simps [of n] dec_nat.simps [of m] dec_nat_nonempty
            dec_nat_nonempty [symmetric])
    next
      case False
      with n 1(2) have eq: "dec_nat (n div 10) = dec_nat (m div 10)"
        and d: "digit_char (n mod 10) = digit_char (m mod 10)"
        by (simp_all add: dec_nat.simps [of n] dec_nat.simps [of m])
      from 1(1) [OF n eq] have "n div 10 = m div 10" .
      moreover from d have "n mod 10 = m mod 10" by (simp add: digit_char_inj)
      ultimately show ?thesis by (metis div_mult_mod_eq)
    qed
  qed
qed

text \<open>
  A prefix that does not end in a digit can be read back from the identifier: the counter
  is the longest run of digits at the end.
\<close>

lemma split_digits_unique:
  assumes "p @ u = q @ v"
    and "no_digit_end p" and "no_digit_end q"
    and "\<forall>c \<in> set u. is_digit c" and "\<forall>c \<in> set v. is_digit c"
  shows "p = q \<and> u = v"
proof -
  have tw: "takeWhile is_digit (rev w @ rev r) = rev w"
    if "no_digit_end r" "\<forall>c \<in> set w. is_digit c" for r w :: string
  proof (cases "r = []")
    case True
    with that show ?thesis by simp
  next
    case False
    with that(1) have "\<not> is_digit (last r)" by (simp add: no_digit_end_def)
    with False have "\<not> is_digit (hd (rev r))" by (simp add: hd_rev)
    moreover from False have "rev r \<noteq> []" by simp
    ultimately have e: "takeWhile is_digit (rev r) = []"
      by (cases "rev r") simp_all
    have "takeWhile is_digit (rev w @ rev r) = rev w @ takeWhile is_digit (rev r)"
      by (rule takeWhile_append2) (use that(2) in simp)
    with e show ?thesis by simp
  qed
  from assms(1) have "rev u @ rev p = rev v @ rev q"
    by (metis rev_append)
  then have "takeWhile is_digit (rev u @ rev p) = takeWhile is_digit (rev v @ rev q)"
    by simp
  with tw [OF assms(2,4)] tw [OF assms(3,5)] have "u = v" by simp
  with assms(1) show ?thesis by simp
qed

lemma ident_inj:
  assumes "p @ dec_int j = q @ dec_int k"
    and "no_digit_end p" and "no_digit_end q" and "0 \<le> j" and "0 \<le> k"
  shows "p = q \<and> j = k"
proof -
  from assms(4,5) have dj: "dec_int j = dec_nat (nat j)" and dk: "dec_int k = dec_nat (nat k)"
    by (simp_all add: dec_int_def)
  from assms(1) have "p @ dec_nat (nat j) = q @ dec_nat (nat k)" by (simp add: dj dk)
  from split_digits_unique [OF this assms(2,3) dec_nat_digits dec_nat_digits]
  have "p = q" and "dec_nat (nat j) = dec_nat (nat k)" by simp_all
  from this(2) have "nat j = nat k" by (rule dec_nat_inj)
  with assms(4,5) \<open>p = q\<close> show ?thesis by simp
qed

section \<open>Freshness of minted identifiers\<close>

lemma counter_upd: "counter (ids(p \<mapsto> n)) q = (if q = p then n else counter ids q)"
  by (simp add: counter_def)

lemma minted_mono: "minted ids x \<Longrightarrow> \<forall>p. counter ids p \<le> counter ids' p \<Longrightarrow> minted ids' x"
proof -
  assume m: "minted ids x" and le: "\<forall>p. counter ids p \<le> counter ids' p"
  from m obtain p k where pk: "x = p @ dec_int k" "no_digit_end p" "0 < k" "k \<le> counter ids p"
    unfolding minted_def by blast
  from le have "counter ids p \<le> counter ids' p" by blast
  with pk(4) have "k \<le> counter ids' p" by simp
  with pk(1-3) show ?thesis unfolding minted_def by blast
qed

lemma new_fresh:
  assumes ok: "ids_ok G ids" and p: "no_digit_end p" and n: "Identifiers_new p ids = (x, ids')"
  shows "ids_ok (G @ [x]) ids'"
proof -
  from ok have nn: "\<And>q. 0 \<le> counter ids q" by (simp add: ids_ok_def)
  from n have x: "x = p @ dec_int (counter ids p + 1)"
    and ids': "ids' = ids(p \<mapsto> counter ids p + 1)"
    by (simp_all add: Identifiers_new_def Let_def counter_upd)
  have mono: "\<forall>q. counter ids q \<le> counter ids' q"
    by (simp add: ids' counter_upd)
  have fresh: "x \<notin> set G"
  proof
    assume "x \<in> set G"
    with ok have "minted ids x" by (simp add: ids_ok_def)
    then obtain q k where q: "x = q @ dec_int k" "no_digit_end q" "0 < k" "k \<le> counter ids q"
      unfolding minted_def by blast
    from q(1) x have eq: "p @ dec_int (counter ids p + 1) = q @ dec_int k" by simp
    have a: "0 \<le> counter ids p + 1" using nn [of p] by simp
    have b: "0 \<le> k" using q(3) by simp
    from ident_inj [OF eq p q(2) a b]
    have "p = q" "counter ids p + 1 = k" by blast+
    with q(4) show False by simp
  qed
  have mx: "minted ids' x"
    unfolding minted_def
    using p nn [of p] by (intro exI [of _ p] exI [of _ "counter ids p + 1"]) (simp add: x ids' counter_upd)
  from ok have "\<forall>y \<in> set G. minted ids' y"
    using minted_mono [OF _ mono] by (simp add: ids_ok_def)
  moreover from nn have "\<forall>q. 0 \<le> counter ids' q"
    by (simp add: ids' counter_upd)
  ultimately show ?thesis using ok fresh mx by (simp add: ids_ok_def)
qed

lemma news_ok:
  "\<forall>p \<in> set ps. no_digit_end p \<Longrightarrow> ids_ok G ids \<Longrightarrow>
     ids_ok (G @ fst (news ps ids)) (snd (news ps ids))"
proof (induction ps arbitrary: G ids)
  case Nil
  then show ?case by simp
next
  case (Cons p ps)
  obtain x ids1 where n: "Identifiers_new p ids = (x, ids1)" by (cases "Identifiers_new p ids")
  from Cons.prems have "ids_ok (G @ [x]) ids1" by (intro new_fresh [OF _ _ n]) simp_all
  with Cons.IH [of "G @ [x]" ids1] Cons.prems(1)
  have "ids_ok ((G @ [x]) @ fst (news ps ids1)) (snd (news ps ids1))" by simp
  then show ?case by (cases "news ps ids1") (simp add: n)
qed

lemma reset_ok: "ids_ok [] Identifiers_reset"
  by (simp add: ids_ok_def Identifiers_reset_def counter_def)

lemma news_distinct: "\<forall>p \<in> set ps. no_digit_end p \<Longrightarrow> distinct (fst (news ps Identifiers_reset))"
  using news_ok [OF _ reset_ok, of ps] by (simp add: ids_ok_def)

section \<open>Every pass only appends annotations with fresh identifiers\<close>

lemma extends_refl: "extends s s"
  unfolding extends_def by (rule exI [of _ "[]"]) simp

lemma extends_trans: "extends s s' \<Longrightarrow> extends s' s'' \<Longrightarrow> extends s s''"
proof -
  assume a: "extends s s'" and b: "extends s' s''"
  from a obtain n1 where n1: "fst s' = fst s @ n1"
    "\<And>G. ids_ok G (snd s) \<Longrightarrow> ids_ok (G @ map ident n1) (snd s')"
    unfolding extends_def by blast
  from b obtain n2 where n2: "fst s'' = fst s' @ n2"
    "\<And>G. ids_ok G (snd s') \<Longrightarrow> ids_ok (G @ map ident n2) (snd s'')"
    unfolding extends_def by blast
  have "fst s'' = fst s @ (n1 @ n2)" by (simp add: n1(1) n2(1))
  moreover have "ids_ok (G @ map ident (n1 @ n2)) (snd s'')" if "ids_ok G (snd s)" for G
    using n2(2) [OF n1(2) [OF that]] by simp
  ultimately show ?thesis unfolding extends_def by blast
qed

lemma add_property_ident: "ident (add_property a k v) = ident a"
  and add_property_at_type: "at_type (add_property a k v) = at_type a"
  by (simp_all add: add_property_def)

lemma fold_add_property_ident:
  "ident (fold (\<lambda>(prop, val) a. add_property a prop val) ps a) = ident a"
  by (induction ps arbitrary: a) (simp_all add: add_property_ident split: prod.splits)

lemma fold_add_property_at_type:
  "at_type (fold (\<lambda>(prop, val) a. add_property a prop val) ps a) = at_type a"
  by (induction ps arbitrary: a) (simp_all add: add_property_at_type split: prod.splits)

lemma add_annotation_snoc:
  "\<exists>a. add_annotation view ty x d st en ps = view @ [a] \<and> ident a = x \<and> at_type a = ty"
  by (simp add: add_annotation_def Let_def fold_add_property_ident fold_add_property_at_type
      add_property_ident add_property_at_type split: option.splits)

lemma extends_new:
  assumes "no_digit_end p" and "Identifiers_new p ids = (x, ids')"
  shows "extends (view, ids) (add_annotation view ty x d st en ps, ids')"
proof -
  obtain a where a: "add_annotation view ty x d st en ps = view @ [a]" "ident a = x"
    using add_annotation_snoc by blast
  have "ids_ok (G @ map ident [a]) ids'" if "ids_ok G ids" for G
    using new_fresh [OF that assms] by (simp add: a(2))
  then show ?thesis unfolding extends_def using a(1) by (intro exI [of _ "[a]"]) simp
qed

lemma fold_extends:
  assumes "\<And>x s. extends (g s) (g (f x s))"
  shows "extends (g s) (g (fold f xs s))"
proof (induction xs arbitrary: s)
  case Nil
  show ?case by (simp add: extends_refl)
next
  case (Cons x xs)
  from assms [of s x] Cons [of "f x s"] show ?case
    by (simp add: extends_trans)
qed

lemma foldE_extends:
  assumes "\<And>x s s'. f x s = Inr s' \<Longrightarrow> extends (g s) (g s')"
  shows "foldE f xs s = Inr s' \<Longrightarrow> extends (g s) (g s')"
proof (induction xs arbitrary: s)
  case Nil
  then show ?case by (simp add: extends_refl)
next
  case (Cons x xs)
  then obtain s1 where s1: "f x s = Inr s1" "foldE f xs s1 = Inr s'"
    by (auto split: sum.splits)
  from assms [OF s1(1)] Cons.IH [OF s1(2)] show ?case by (rule extends_trans)
qed

lemma bindE_Inr: "bindE m f = Inr y \<longleftrightarrow> (\<exists>x. m = Inr x \<and> f x = Inr y)"
  by (cases m) (simp_all add: bindE_def)

lemma prefixes_no_digit:
  "no_digit_end ''t''" "no_digit_end ''nc''" "no_digit_end ''s''"
  "no_digit_end ''ne''" "no_digit_end ''dep''" "no_digit_end ''rel''"
  by (simp_all add: no_digit_end_def is_digit_def)

lemma token_step_extends:
  "extends (snd s) (snd (token_step text_orig doc_id nt s))"
proof -
  obtain n tok where nt: "nt = (n, tok)" by (cases nt)
  obtain d view ids where s: "s = (d, view, ids)" by (cases s)
  obtain x ids' where n: "Identifiers_new ''t'' ids = (x, ids')" by (cases "Identifiers_new ''t'' ids")
  show ?thesis
    using extends_new [OF prefixes_no_digit(1) n]
    by (simp add: token_step_def nt s n Let_def)
qed

lemma span_step_extends:
  assumes "no_digit_end pfx" and "span_step ty pfx text_orig doc_id tok_idx sp s = Inr s'"
  shows "extends s s'"
proof -
  obtain view ids where s: "s = (view, ids)" by (cases s)
  obtain x ids' where n: "Identifiers_new pfx ids = (x, ids')" by (cases "Identifiers_new pfx ids")
  from assms(2) show ?thesis
    using extends_new [OF assms(1) n]
    by (auto simp: span_step_def s n Let_def bindE_Inr)
qed

lemma ent_step_extends:
  assumes "ent_step text_orig doc_id tok_idx ent s = Inr s'"
  shows "extends (snd s) (snd s')"
proof -
  obtain d view ids where s: "s = (d, view, ids)" by (cases s)
  obtain x ids' where n: "Identifiers_new ''ne'' ids = (x, ids')" by (cases "Identifiers_new ''ne'' ids")
  from assms show ?thesis
    using extends_new [OF prefixes_no_digit(4) n] extends_refl
    by (auto simp: ent_step_def s n Let_def bindE_Inr split: option.splits)
qed

lemma dep_step_extends:
  "extends (snd s) (snd (dep_step text_orig doc_id entity_dict tok s))"
proof -
  obtain d view ids where s: "s = (d, view, ids)" by (cases s)
  obtain x ids' where n: "Identifiers_new ''dep'' ids = (x, ids')" by (cases "Identifiers_new ''dep'' ids")
  show ?thesis
    using extends_new [OF prefixes_no_digit(5) n]
    by (simp add: dep_step_def s n Let_def)
qed

lemma rel_step_extends:
  assumes "rel_step entity_dict governer_dict doc_id i1 i2 s = Inr s'"
  shows "extends s s'"
proof -
  obtain view ids where s: "s = (view, ids)" by (cases s)
  obtain x ids' where n: "Identifiers_new ''rel'' ids = (x, ids')" by (cases "Identifiers_new ''rel'' ids")
  from assms show ?thesis
    using extends_new [OF prefixes_no_digit(6) n] extends_refl
    by (auto simp: rel_step_def s n Let_def bindE_Inr split: if_splits)
qed

lemma rel_pass_extends:
  assumes "rel_pass entity_dict governer_dict doc_id s = Inr s'"
  shows "extends s s'"
proof -
  have inner: "extends s s'"
    if "foldE (rel_step entity_dict governer_dict doc_id i1) ks s = Inr s'" for i1 ks s s'
    using foldE_extends [where g = "\<lambda>s. s", OF rel_step_extends that] .
  from assms show ?thesis
    unfolding rel_pass_def
    using foldE_extends [where g = "\<lambda>s. s"
        and f = "\<lambda>i1. foldE (rel_step entity_dict governer_dict doc_id i1) (dict_keys entity_dict)"
        and xs = "dict_keys entity_dict" and s = s and s' = s'] inner
    by blast
qed

lemma annotate_doc_extends:
  assumes "annotate_doc text_orig doc_id sd s0 = Inr s'"
  shows "extends s0 s'"
proof -
  obtain tok_idx s1 where tp: "token_pass text_orig doc_id sd s0 = (tok_idx, s1)"
    by (cases "token_pass text_orig doc_id sd s0")
  from assms tp obtain s2 s3 entity_dict s4 where
    c: "foldE (span_step NCHUNK ''nc'' text_orig doc_id tok_idx) (noun_chunks sd) s1 = Inr s2"
    and st: "foldE (span_step SENTENCE ''s'' text_orig doc_id tok_idx) (sents sd) s2 = Inr s3"
    and e: "ent_pass text_orig doc_id tok_idx sd s3 = Inr (entity_dict, s4)"
    and r: "(case dep_pass text_orig doc_id entity_dict sd s4 of
              (governer_dict, s5) \<Rightarrow> rel_pass entity_dict governer_dict doc_id s5) = Inr s'"
    by (auto simp: annotate_doc_def bindE_Inr)
  obtain governer_dict s5 where dp: "dep_pass text_orig doc_id entity_dict sd s4 = (governer_dict, s5)"
    by (cases "dep_pass text_orig doc_id entity_dict sd s4")
  have 1: "extends s0 s1"
    using fold_extends [where g = snd and f = "token_step text_orig doc_id", OF token_step_extends,
        of "([], s0)" "enumerate 0 (tokens sd)"] tp
    by (cases s0) (simp add: token_pass_def)
  have 2: "extends s1 s2"
    using foldE_extends [where g = "\<lambda>s. s", OF span_step_extends [OF prefixes_no_digit(2)] c] .
  have 3: "extends s2 s3"
    using foldE_extends [where g = "\<lambda>s. s", OF span_step_extends [OF prefixes_no_digit(3)] st] .
  have 4: "extends s3 s4"
    using foldE_extends [where g = snd and f = "ent_step text_orig doc_id tok_idx"
        and xs = "ents sd" and s = "([], s3)" and s' = "(entity_dict, s4)", OF ent_step_extends] e
    by (cases s3) (simp add: ent_pass_def)
  have 5: "extends s4 s5"
    using fold_extends [where g = snd and f = "dep_step text_orig doc_id entity_dict",
        OF dep_step_extends, of "([], s4)" "tokens sd"] dp
    by (cases s4) (simp add: dep_pass_def)
  have 6: "extends s5 s'"
    using r dp by (simp add: rel_pass_extends)
  from 1 2 3 4 5 6 show ?thesis by (blast intro: extends_trans)
qed

lemma add_tool_output_extends:
  assumes "add_tool_output E doc view doc_id ids = Inr s'"
  shows "extends (view, ids) s'"
  using assms by (auto simp: add_tool_output_def bindE_Inr annotate_doc_extends)

section \<open>Identifiers of a whole batch\<close>

lemma batch_extends_refl: "batch_extends s s"
  unfolding batch_extends_def by (rule exI [of _ "[]"]) (simp add: view_idents_def)

lemma batch_extends_trans: "batch_extends s s' \<Longrightarrow> batch_extends s' s'' \<Longrightarrow> batch_extends s s''"
proof -
  assume a: "batch_extends s s'" and b: "batch_extends s' s''"
  from a obtain v1 where v1: "views (fst s') = views (fst s) @ v1"
    "\<And>G. ids_ok G (snd s) \<Longrightarrow> ids_ok (G @ view_idents v1) (snd s')"
    unfolding batch_extends_def by blast
  from b obtain v2 where v2: "views (fst s'') = views (fst s') @ v2"
    "\<And>G. ids_ok G (snd s') \<Longrightarrow> ids_ok (G @ view_idents v2) (snd s'')"
    unfolding batch_extends_def by blast
  have "views (fst s'') = views (fst s) @ (v1 @ v2)" by (simp add: v1(1) v2(1))
  moreover have "ids_ok (G @ view_idents (v1 @ v2)) (snd s'')" if "ids_ok G (snd s)" for G
    using v2(2) [OF v1(2) [OF that]] by (simp add: view_idents_def)
  ultimately show ?thesis unfolding batch_extends_def by blast
qed

lemma foldE_batch_extends:
  assumes "\<And>x s s'. f x s = Inr s' \<Longrightarrow> batch_extends s s'"
  shows "foldE f xs s = Inr s' \<Longrightarrow> batch_extends s s'"
proof (induction xs arbitrary: s)
  case Nil
  then show ?case by (simp add: batch_extends_refl)
next
  case (Cons x xs)
  then obtain s1 where s1: "f x s = Inr s1" "foldE f xs s1 = Inr s'"
    by (auto split: sum.splits)
  from assms [OF s1(1)] Cons.IH [OF s1(2)] show ?case by (rule batch_extends_trans)
qed

lemma new_view_batch:
  assumes "extends ([], ids) (anns, ids')"
  shows "batch_extends (m, ids) (m\<lparr>views := views m @ [new_view E m\<lparr>view_annotations := anns\<rparr>]\<rparr>, ids')"
proof -
  from assms have "\<And>G. ids_ok G ids \<Longrightarrow> ids_ok (G @ map ident anns) ids'"
    unfolding extends_def by auto
  then show ?thesis
    unfolding batch_extends_def
    by (intro exI [of _ "[new_view E m\<lparr>view_annotations := anns\<rparr>]"]) (simp add: view_idents_def)
qed

lemma annotate_document_step_batch:
  assumes "annotate_document_step E doc s = Inr s'"
  shows "batch_extends s s'"
proof -
  obtain m ids where s: "s = (m, ids)" by (cases s)
  from assms obtain anns ids' where
    a: "add_tool_output E doc [] None ids = Inr (anns, ids')"
    and s': "s' = (m\<lparr>views := views m @ [new_view E m\<lparr>view_annotations := anns\<rparr>]\<rparr>, ids')"
    by (auto simp: annotate_document_step_def s Let_def bindE_Inr new_view_def)
  from add_tool_output_extends [OF a] show ?thesis
    unfolding s s' by (rule new_view_batch)
qed

lemma annotate_view_step_batch:
  assumes "annotate_view_step E view s = Inr s'"
  shows "batch_extends s s'"
proof (cases "view_documents view = []")
  case True
  with assms show ?thesis
    by (cases s) (simp add: annotate_view_step_def batch_extends_refl)
next
  case False
  obtain m ids where s: "s = (m, ids)" by (cases s)
  let ?f = "\<lambda>doc (anns, ids).
      add_tool_output E doc anns (Some (view_id view @ '':'' @ doc_id_of doc)) ids"
  from assms False obtain anns ids' where
    a: "foldE ?f (view_documents view) ([], ids) = Inr (anns, ids')"
    and s': "s' = (m\<lparr>views := views m @ [new_view E m\<lparr>view_annotations := anns\<rparr>]\<rparr>, ids')"
    by (auto simp: annotate_view_step_def s Let_def bindE_Inr new_view_def)
  have step: "extends t t'" if "?f doc t = Inr t'" for doc t t'
    using that by (cases t) (simp add: add_tool_output_extends)
  have "extends ([], ids) (anns, ids')"
    using foldE_extends [where g = "\<lambda>s. s" and f = ?f, OF step a] .
  then show ?thesis unfolding s s' by (rule new_view_batch)
qed

lemma annotate_from_batch:
  assumes "annotate_from E m ids = Inr s'"
  shows "batch_extends (m, ids) s'"
proof -
  from assms obtain m1 ids1 where
    1: "foldE (annotate_document_step E) (text_documents (documents m)) (m, ids) = Inr (m1, ids1)"
    and 2: "foldE (annotate_view_step E) (views m1) (m1, ids1) = Inr s'"
    by (auto simp: annotate_from_def bindE_Inr)
  from foldE_batch_extends [OF annotate_document_step_batch 1]
    foldE_batch_extends [OF annotate_view_step_batch 2]
  show ?thesis by (rule batch_extends_trans)
qed

lemma annotate_distinct:
  assumes "annotate E m ids = Inr (m', ids')"
  shows "\<exists>vs. views m' = views m @ vs \<and> distinct (view_idents vs)"
proof -
  from assms have "batch_extends (m, Identifiers_reset) (m', ids')"
    by (simp add: annotate_def annotate_from_batch)
  then obtain vs where vs: "views m' = views m @ vs"
    "\<And>G. ids_ok G Identifiers_reset \<Longrightarrow> ids_ok (G @ view_idents vs) ids'"
    unfolding batch_extends_def by auto
  from vs(2) [OF reset_ok] have "distinct (view_idents vs)" by (simp add: ids_ok_def)
  with vs(1) show ?thesis by blast
qed

section \<open>The offset table and the properties of a new annotation\<close>

lemma token_step_fst:
  "fst (token_step text_orig doc_id (n, tok) s) = AList.update (int n) (token_span tok) (fst s)"
  by (cases s) (simp add: token_step_def token_span_def Let_def split: prod.splits)

lemma fold_token_step_fst:
  "fst (fold (token_step text_orig doc_id) nts s) =
     fold (\<lambda>(n, tok). AList.update (int n) (token_span tok)) nts (fst s)"
proof (induction nts arbitrary: s)
  case Nil
  show ?case by simp
next
  case (Cons nt nts)
  obtain n tok where nt: "nt = (n, tok)" by (cases nt)
  show ?case by (simp add: Cons nt token_step_fst)
qed

lemma table_fold:
  "map_of (fold (\<lambda>(n, tok). AList.update (int n) (token_span tok)) (enumerate m toks) ti) k =
     (if int m \<le> k \<and> k < int m + int (length toks)
      then Some (token_span (toks ! nat (k - int m))) else map_of ti k)"
proof (induction toks arbitrary: m ti)
  case Nil
  show ?case by auto
next
  case (Cons tok toks)
  show ?case
  proof (cases "k = int m")
    case True
    with Cons [of "Suc m" "AList.update (int m) (token_span tok) ti"]
    show ?thesis by (simp add: update_conv')
  next
    case False
    have "nat (k - int m) = Suc (nat (k - int (Suc m)))" if "int m \<le> k"
      using that False by simp
    with False Cons [of "Suc m" "AList.update (int m) (token_span tok) ti"]
    show ?thesis by (auto simp: update_conv')
  qed
qed

lemma token_pass_table:
  "map_of (fst (token_pass text_orig doc_id sd s0)) k =
     (if 0 \<le> k \<and> k < int (length (tokens sd)) then Some (token_span (tokens sd ! nat k)) else None)"
  using table_fold [of 0 "tokens sd" "[]" k]
  by (cases s0) (simp add: token_pass_def fold_token_step_fst)


lemma span_offsets_empty:
  "span_offsets (fst (token_pass text_orig doc_id sd s0)) k k =
     (if 0 < k \<and> k < int (length (tokens sd))
      then Inr (fst (token_span (tokens sd ! nat k)), snd (token_span (tokens sd ! nat (k - 1))))
      else Inl KeyError)"
  by (simp add: span_offsets_def dict_get_def bindE_def token_pass_table)





section \<open>The worked example runs\<close>

lemma returns_iff: "returns m \<longleftrightarrow> (\<exists>x. m = Inr x)"
  by (cases m) (simp_all add: returns_def)

lemma ex_annotate_returns: "returns (annotate ex_env ex_mmif [''t'' \<mapsto> 7])"
  by code_simp

lemma ex_table_eq: "ex_table = [(0, 0, 3), (1, 4, 9), (2, 10, 13)]"
  by (simp add: ex_table_def token_pass_def ex_doc_def ex_tokens_def token_step_def Let_def
      enumerate_eq_zip upt_rec split: prod.splits)

lemma span_step_returns:
  "returns (span_step ty pfx text_orig doc_id tok_idx sp s) \<longleftrightarrow>
     returns (span_offsets tok_idx (sp_start sp) (sp_end sp))"
  by (cases s; cases "span_offsets tok_idx (sp_start sp) (sp_end sp)")
    (simp_all add: span_step_def bindE_def returns_def Let_def split: prod.splits)




section \<open>The uncased pre-pass\<close>

lemma list_modify_in_range:
  "0 \<le> i \<Longrightarrow> i < int (length xs) \<Longrightarrow> list_modify xs i f = Inr (xs[nat i := f (xs ! nat i)])"
  by (simp add: list_modify_def Let_def)

lemma starts_at_Cons:
  "starts_at (tok # toks) j =
     (if ner_ent_type tok \<noteq> [] \<and> ner_idx tok = int j then Suc (starts_at toks j) else starts_at toks j)"
  by (simp add: starts_at_def)

lemma prepass_fold:
  assumes "\<forall>tok \<in> set toks. ner_ent_type tok \<noteq> [] \<longrightarrow> 0 \<le> ner_idx tok \<and> ner_idx tok < int (length l)"
  shows "foldE (\<lambda>tok input_text_list.
                  if ner_ent_type tok \<noteq> []
                  then list_modify input_text_list (ner_idx tok) f
                  else Inr input_text_list) toks l =
           Inr (map (\<lambda>j. (f ^^ starts_at toks j) (l ! j)) [0..<length l])"
  using assms
proof (induction toks arbitrary: l)
  case Nil
  show ?case by (simp add: starts_at_def map_nth)
next
  case (Cons tok toks)
  show ?case
  proof (cases "ner_ent_type tok \<noteq> []")
    case False
    with Cons.prems have "\<forall>t \<in> set toks. ner_ent_type t \<noteq> [] \<longrightarrow> 0 \<le> ner_idx t \<and> ner_idx t < int (length l)"
      by simp
    from Cons.IH [OF this] False show ?thesis by (simp add: starts_at_Cons)
  next
    case True
    let ?i = "ner_idx tok"
    let ?l1 = "l[nat ?i := f (l ! nat ?i)]"
    from True Cons.prems have r: "0 \<le> ?i" "?i < int (length l)" by simp_all
    then have lm: "list_modify l ?i f = Inr ?l1" by (rule list_modify_in_range)
    from Cons.prems have "\<forall>t \<in> set toks. ner_ent_type t \<noteq> [] \<longrightarrow> 0 \<le> ner_idx t \<and> ner_idx t < int (length ?l1)"
      by simp
    from Cons.IH [OF this]
    have ih: "foldE (\<lambda>tok input_text_list.
                  if ner_ent_type tok \<noteq> []
                  then list_modify input_text_list (ner_idx tok) f
                  else Inr input_text_list) toks ?l1 =
           Inr (map (\<lambda>j. (f ^^ starts_at toks j) (?l1 ! j)) [0..<length l])"
      by simp
    have "(f ^^ starts_at toks j) (?l1 ! j) = (f ^^ starts_at (tok # toks) j) (l ! j)"
      if "j < length l" for j
    proof (cases "j = nat ?i")
      case e: True
      with r have ij: "?i = int j" by simp
      from that e have 1: "?l1 ! j = f (l ! j)" by simp
      from True ij have 2: "starts_at (tok # toks) j = Suc (starts_at toks j)"
        by (simp add: starts_at_Cons)
      show ?thesis by (simp only: 1 2 funpow_Suc_right o_apply)
    next
      case ne: False
      with r have "?i \<noteq> int j" by auto
      with ne that show ?thesis by (simp add: starts_at_Cons)
    qed
    then have "map (\<lambda>j. (f ^^ starts_at toks j) (?l1 ! j)) [0..<length l] =
               map (\<lambda>j. (f ^^ starts_at (tok # toks) j) (l ! j)) [0..<length l]"
      by simp
    with ih lm True show ?thesis by simp
  qed
qed

lemma uncased_prepass_eq:
  assumes "ner E = Some ner_model" and "ner_model (str_lower E txt) = Inr toks"
    and "\<forall>tok \<in> set toks. ner_ent_type tok \<noteq> [] \<longrightarrow>
           0 \<le> ner_idx tok \<and> ner_idx tok < int (length (str_lower E txt))"
  shows "uncased_prepass E txt = Inr (truecased E toks txt)"
proof -
  let ?lo = "str_lower E txt"
  let ?l = "map (\<lambda>c. [c]) ?lo"
  from assms(3) have "\<forall>tok \<in> set toks. ner_ent_type tok \<noteq> [] \<longrightarrow> 0 \<le> ner_idx tok \<and> ner_idx tok < int (length ?l)"
    by simp
  from prepass_fold [OF this, of "str_upper E"]
  have "foldE (\<lambda>tok input_text_list.
                  if ner_ent_type tok \<noteq> []
                  then list_modify input_text_list (ner_idx tok) (str_upper E)
                  else Inr input_text_list) toks ?l =
           Inr (map (\<lambda>j. (str_upper E ^^ starts_at toks j) (?l ! j)) [0..<length ?lo])"
    by simp
  moreover have "map (\<lambda>j. (str_upper E ^^ starts_at toks j) (?l ! j)) [0..<length ?lo] =
                 map (\<lambda>j. (str_upper E ^^ starts_at toks j) [?lo ! j]) [0..<length ?lo]"
    by simp
  ultimately show ?thesis
    using assms(1,2) by (simp add: uncased_prepass_def bindE_def truecased_def Let_def)
qed

lemma ex_truecased: "truecased ex_env_uncased ex_ner_tokens ''Jim loves PBS'' = ''Jim loves Pbs''"
  by code_simp

section \<open>Text attributes are slices of the original text\<close>











lemma foldE_rel:
  assumes step: "\<And>x s s'. f x s = Inr s' \<Longrightarrow> P s \<Longrightarrow> P s' \<and> R s s'"
    and refl: "\<And>s. R s s" and trans: "\<And>a b c. R a b \<Longrightarrow> R b c \<Longrightarrow> R a c"
  shows "foldE f xs s = Inr s' \<Longrightarrow> P s \<Longrightarrow> P s' \<and> R s s'"
proof (induction xs arbitrary: s)
  case Nil
  then show ?case by (simp add: refl)
next
  case (Cons x xs)
  from Cons.prems(1) obtain s1 where s1: "f x s = Inr s1" "foldE f xs s1 = Inr s'"
    by (auto split: sum.splits)
  from step [OF s1(1) Cons.prems(2)] have 1: "P s1" "R s s1" by simp_all
  from Cons.IH [OF s1(2) 1(1)] have 2: "P s'" "R s1 s'" by simp_all
  from 1 2 show ?case by (blast intro: trans)
qed

lemma fold_rel:
  assumes step: "\<And>x s. P s \<Longrightarrow> P (f x s) \<and> R s (f x s)"
    and refl: "\<And>s. R s s" and trans: "\<And>a b c. R a b \<Longrightarrow> R b c \<Longrightarrow> R a c"
  shows "P s \<Longrightarrow> P (fold f xs s) \<and> R s (fold f xs s)"
proof (induction xs arbitrary: s)
  case Nil
  then show ?case by (simp add: refl)
next
  case (Cons x xs)
  from step [OF Cons.prems, of x] have 1: "P (f x s)" "R s (f x s)" by simp_all
  from Cons.IH [OF 1(1)] have 2: "P (fold f xs (f x s))" "R (f x s) (fold f xs (f x s))" by simp_all
  from 1 2 show ?case by (auto intro: trans)
qed




















section \<open>The entity registry and the governor registry\<close>

lemma dict_keys_update:
  "set (dict_keys (AList.update k v d)) = insert k (set (dict_keys d))"
  using dom_update [of k v d] by (simp add: dict_keys_def)

lemma distinct_keys_update:
  "distinct (dict_keys d) \<Longrightarrow> distinct (dict_keys (AList.update k v d))"
  unfolding dict_keys_def by (rule distinct_update)

lemma in_keys_iff: "k \<in> set (dict_keys d) \<longleftrightarrow> map_of d k \<noteq> None"
  by (simp add: dict_keys_def map_of_eq_None_iff)

text \<open>The entity registry after the entity loop.\<close>

lemma ent_step_registry:
  assumes "ent_step t doc_id tok_idx ent (ed, s) = Inr (ed', s')"
    and "distinct (dict_keys ed)" and "\<forall>k \<in> set (dict_keys ed). entity_entry t ed k"
  shows "distinct (dict_keys ed') \<and> (\<forall>k \<in> set (dict_keys ed'). entity_entry t ed' k) \<and>
         set (dict_keys ed') =
           set (dict_keys ed) \<union> (if find_dbpedia_type ent \<noteq> None then {ref_i (ent_root ent)} else {})"
proof (cases "find_dbpedia_type ent")
  case None
  with assms show ?thesis by (cases s) (simp add: ent_step_def)
next
  case (Some c)
  obtain view ids where s: "s = (view, ids)" by (cases s)
  obtain x ids1 where n: "Identifiers_new ''ne'' ids = (x, ids1)" by (cases "Identifiers_new ''ne'' ids")
  from assms(1) Some obtain p1 p2 where
    ed': "ed' = AList.update (ref_i (ent_root ent)) (entity_properties t c ent p1 p2) ed"
    by (auto simp: ent_step_def s n bindE_Inr Let_def)
  have "entity_entry t ed' k" if "k \<in> set (dict_keys ed')" for k
  proof (cases "k = ref_i (ent_root ent)")
    case True
    then show ?thesis unfolding entity_entry_def ed' by (auto simp: update_conv')
  next
    case False
    with that have "k \<in> set (dict_keys ed)" by (simp add: ed' dict_keys_update)
    with assms(3) have "entity_entry t ed k" by blast
    with False show ?thesis unfolding entity_entry_def ed' by (simp add: update_conv')
  qed
  with assms(2) Some show ?thesis
    by (simp add: ed' distinct_keys_update dict_keys_update)
qed

lemma ent_fold_registry:
  assumes "foldE (ent_step t doc_id tok_idx) es (ed, s) = Inr (ed', s')"
    and "distinct (dict_keys ed)" and "\<forall>k \<in> set (dict_keys ed). entity_entry t ed k"
  shows "distinct (dict_keys ed') \<and> (\<forall>k \<in> set (dict_keys ed'). entity_entry t ed' k) \<and>
         set (dict_keys ed') =
           set (dict_keys ed) \<union>
           set (map (\<lambda>e. ref_i (ent_root e)) (filter (\<lambda>e. find_dbpedia_type e \<noteq> None) es))"
  using assms
proof (induction es arbitrary: ed s)
  case Nil
  then show ?case by simp
next
  case (Cons e es)
  from Cons.prems(1) obtain ed1 s1 where
    1: "ent_step t doc_id tok_idx e (ed, s) = Inr (ed1, s1)"
    and 2: "foldE (ent_step t doc_id tok_idx) es (ed1, s1) = Inr (ed', s')"
    by (auto split: sum.splits)
  from ent_step_registry [OF 1 Cons.prems(2,3)]
  have a: "distinct (dict_keys ed1)" "\<forall>k \<in> set (dict_keys ed1). entity_entry t ed1 k"
    and k: "set (dict_keys ed1) =
           set (dict_keys ed) \<union> (if find_dbpedia_type e \<noteq> None then {ref_i (ent_root e)} else {})"
    by simp_all
  from Cons.IH [OF 2 a] k show ?case by auto
qed

lemma ent_pass_registry:
  assumes "ent_pass t doc_id tok_idx sd s = Inr (ed, s')"
  shows "distinct (dict_keys ed) \<and> (\<forall>k \<in> set (dict_keys ed). entity_entry t ed k) \<and>
         set (dict_keys ed) = set (entity_heads sd)"
proof -
  obtain view ids where s: "s = (view, ids)" by (cases s)
  from assms have "foldE (ent_step t doc_id tok_idx) (ents sd) ([], view, ids) = Inr (ed, s')"
    by (simp add: ent_pass_def s)
  moreover have "distinct (dict_keys ([]::propdict))"
    and "\<forall>k \<in> set (dict_keys ([]::propdict)). entity_entry t [] k"
    by (simp_all add: dict_keys_def)
  moreover have e: "set (dict_keys ([]::propdict)) = {}"
    by (simp add: dict_keys_def)
  ultimately have "distinct (dict_keys ed) \<and> (\<forall>k \<in> set (dict_keys ed). entity_entry t ed k) \<and>
         set (dict_keys ed) =
           set (dict_keys ([]::propdict)) \<union>
           set (map (\<lambda>e. ref_i (ent_root e)) (filter (\<lambda>e. find_dbpedia_type e \<noteq> None) (ents sd)))"
    by (intro ent_fold_registry)
  then have "distinct (dict_keys ed)" and "\<forall>k \<in> set (dict_keys ed). entity_entry t ed k"
    and "set (dict_keys ed) = set (entity_heads sd)"
    unfolding e entity_heads_def by simp_all
  then show ?thesis by blast
qed

text \<open>The governor registry after the dependency loop.\<close>

lemma dep_step_fst:
  "fst (dep_step t doc_id ed tok s) =
     (if tk_i tok \<in> set (dict_keys ed)
      then AList.update (tk_i tok) (properties_governer t tok) (fst s) else fst s)"
  by (cases s) (simp add: dep_step_def Let_def split: prod.splits)

lemma dep_fold_registry:
  "map_of (fst (fold (dep_step t doc_id ed) toks s)) k =
     (if k \<in> set (dict_keys ed) \<and> filter (\<lambda>tok. tk_i tok = k) toks \<noteq> []
      then Some (properties_governer t (last (filter (\<lambda>tok. tk_i tok = k) toks)))
      else map_of (fst s) k)"
proof (induction toks arbitrary: s)
  case Nil
  show ?case by simp
next
  case (Cons tok toks)
  let ?rest = "filter (\<lambda>tok. tk_i tok = k) toks"
  note ih = Cons [of "dep_step t doc_id ed tok s"]
  show ?case
  proof (cases "tk_i tok = k")
    case eq: True
    show ?thesis
    proof (cases "?rest = []")
      case True
      with ih eq show ?thesis by (auto simp: dep_step_fst update_conv')
    next
      case False
      with ih eq show ?thesis by (auto simp: dep_step_fst update_conv')
    qed
  next
    case False
    with ih show ?thesis by (auto simp: dep_step_fst update_conv')
  qed
qed

lemma dep_pass_registry:
  assumes "dep_pass t doc_id ed sd s = (gd, s')"
  shows "map_of gd k =
     (if k \<in> set (dict_keys ed) \<and> filter (\<lambda>tok. tk_i tok = k) (tokens sd) \<noteq> []
      then Some (properties_governer t (last (filter (\<lambda>tok. tk_i tok = k) (tokens sd))))
      else None)"
proof -
  obtain view ids where s: "s = (view, ids)" by (cases s)
  from assms have "gd = fst (fold (dep_step t doc_id ed) (tokens sd) ([], view, ids))"
    by (simp add: dep_pass_def s)
  then show ?thesis by (simp add: dep_fold_registry)
qed

lemma roots_have_tokens:
  assumes "roots_in_doc sd" and "k \<in> set (entity_heads sd)"
  shows "filter (\<lambda>tok. tk_i tok = k) (tokens sd) \<noteq> []"
proof -
  from assms(2) obtain e where "e \<in> set (ents sd)" "ref_i (ent_root e) = k"
    by (auto simp: entity_heads_def)
  with assms(1) obtain tok where "tok \<in> set (tokens sd)" "tk_i tok = k"
    by (auto simp: roots_in_doc_def list_ex_iff)
  then show ?thesis by (auto simp: filter_empty_conv)
qed

lemma governor_registry:
  assumes "roots_in_doc sd" and "dep_pass t doc_id ed sd s = (gd, s')"
    and "set (dict_keys ed) = set (entity_heads sd)" and "k \<in> set (dict_keys ed)"
  shows "governor_entry t sd gd k"
proof -
  from assms(3,4) have "k \<in> set (entity_heads sd)" by simp
  from roots_have_tokens [OF assms(1) this] assms(4) dep_pass_registry [OF assms(2), of k]
  show ?thesis by (auto simp: governor_entry_def governor_i_def)
qed

section \<open>The relation loops\<close>

lemma relation_properties_eq:
  assumes "map_of gd i1 = Some (properties_governer t tok1)"
    and "map_of gd i2 = Some (properties_governer t tok2)"
    and "map_of ed i1 = Some (entity_properties t c1 e1 a1 b1)"
    and "map_of ed i2 = Some (entity_properties t c2 e2 a2 b2)"
  shows "relation_properties ed gd i1 i2 = Inr (relation_record t tok1 tok2 e1 (a1, b1) e2 (a2, b2))"
  using assms
  by (simp add: relation_properties_def dict_get2_def dict_get_def bindE_def
      properties_governer_def entity_properties_def relation_record_def Let_def)

lemma governer_i_eq:
  "map_of gd k = Some (properties_governer t tok) \<Longrightarrow>
     dict_get2 gd k ''governer_i'' = Inr (PInt (ref_i (tk_head tok)))"
  by (simp add: dict_get2_def dict_get_def bindE_def properties_governer_def Let_def)

lemma rel_step_eq:
  assumes "map_of gd i1 = Some (properties_governer t tok1)"
    and "map_of gd i2 = Some (properties_governer t tok2)"
    and "map_of ed i1 = Some (entity_properties t c1 e1 a1 b1)"
    and "map_of ed i2 = Some (entity_properties t c2 e2 a2 b2)"
  shows "rel_step ed gd doc_id i1 i2 (view, ids) =
           (if i1 < i2 \<and> ref_i (tk_head tok1) = ref_i (tk_head tok2)
            then Inr (add_annotation view GENERIC_RELATION (fst (Identifiers_new ''rel'' ids))
                        doc_id None None (relation_record t tok1 tok2 e1 (a1, b1) e2 (a2, b2)),
                      snd (Identifiers_new ''rel'' ids))
            else Inr (view, ids))"
  by (simp add: rel_step_def governer_i_eq [OF assms(1)] governer_i_eq [OF assms(2)]
      relation_properties_eq [OF assms] bindE_def Let_def split: prod.splits)

lemma relation_record_annotation:
  "\<exists>a. add_annotation view GENERIC_RELATION x doc_id None None
          (relation_record t tok1 tok2 e1 s1 e2 s2) = view @ [a] \<and>
        at_type a = GENERIC_RELATION \<and>
        properties a =
          (case doc_id of None \<Rightarrow> [] | Some d \<Rightarrow> [(''document'', PStr d)]) @
          relation_record t tok1 tok2 e1 s1 e2 s2"
  by (cases doc_id)
    (simp_all add: add_annotation_def Let_def relation_record_def add_property_def)

lemma relation_record_ends:
  assumes "properties a =
          (case doc_id of None \<Rightarrow> [] | Some d \<Rightarrow> [(''document'', PStr d)]) @
          relation_record t tok1 tok2 e1 s1 e2 s2"
    and "at_type a = GENERIC_RELATION"
  shows "relation_between i j a \<longleftrightarrow> i = ref_i (ent_root e1) \<and> j = ref_i (ent_root e2)"
  using assms
  by (cases doc_id) (auto simp: relation_between_def relation_record_def)

lemma rel_step_count:
  assumes "entity_entry t ed i1" and "entity_entry t ed i2"
    and "governor_entry t sd gd i1" and "governor_entry t sd gd i2"
  shows "\<exists>view' ids'. rel_step ed gd doc_id i1 i2 (view, ids) = Inr (view', ids') \<and>
           (\<forall>i j. relations_between i j view' =
                    relations_between i j view + (if i = i1 \<and> j = i2 \<and> linked sd i1 i2 then 1 else 0)) \<and>
           relations view' = relations view + (if linked sd i1 i2 then 1 else 0)"
proof -
  from assms(1) obtain c1 e1 a1 b1 where
    e1: "map_of ed i1 = Some (entity_properties t c1 e1 a1 b1)" "ref_i (ent_root e1) = i1"
    unfolding entity_entry_def by blast
  from assms(2) obtain c2 e2 a2 b2 where
    e2: "map_of ed i2 = Some (entity_properties t c2 e2 a2 b2)" "ref_i (ent_root e2) = i2"
    unfolding entity_entry_def by blast
  from assms(3) obtain tok1 where
    g1: "map_of gd i1 = Some (properties_governer t tok1)" "ref_i (tk_head tok1) = governor_i sd i1"
    unfolding governor_entry_def by blast
  from assms(4) obtain tok2 where
    g2: "map_of gd i2 = Some (properties_governer t tok2)" "ref_i (tk_head tok2) = governor_i sd i2"
    unfolding governor_entry_def by blast
  note eq = rel_step_eq [OF g1(1) g2(1) e1(1) e2(1), of doc_id view ids]
  show ?thesis
  proof (cases "linked sd i1 i2")
    case False
    with eq g1(2) g2(2) have "rel_step ed gd doc_id i1 i2 (view, ids) = Inr (view, ids)"
      by (auto simp: linked_def)
    with False show ?thesis by simp
  next
    case True
    let ?x = "fst (Identifiers_new ''rel'' ids)"
    let ?rec = "relation_record t tok1 tok2 e1 (a1, b1) e2 (a2, b2)"
    from relation_record_annotation [of view ?x doc_id t tok1 tok2 e1 "(a1, b1)" e2 "(a2, b2)"]
    obtain a where a: "add_annotation view GENERIC_RELATION ?x doc_id None None ?rec = view @ [a]"
      "at_type a = GENERIC_RELATION"
      "properties a = (case doc_id of None \<Rightarrow> [] | Some d \<Rightarrow> [(''document'', PStr d)]) @ ?rec"
      by blast
    from True eq g1(2) g2(2) a(1)
    have r: "rel_step ed gd doc_id i1 i2 (view, ids) = Inr (view @ [a], snd (Identifiers_new ''rel'' ids))"
      by (auto simp: linked_def)
    have b: "relation_between i j a \<longleftrightarrow> i = i1 \<and> j = i2" for i j
      using relation_record_ends [OF a(3) a(2)] e1(2) e2(2) by simp
    have "relations_between i j (view @ [a]) =
            relations_between i j view + (if i = i1 \<and> j = i2 \<and> linked sd i1 i2 then 1 else 0)" for i j
      using True by (simp add: relations_between_def b)
    moreover have "relations (view @ [a]) = relations view + (if linked sd i1 i2 then 1 else 0)"
      using True a(2) by (simp add: relations_def)
    ultimately show ?thesis using r by blast
  qed
qed

text \<open>The inner and the outer loop, over any lists of registered head positions.\<close>

lemma rel_inner_count:
  assumes "entity_entry t ed i1" and "governor_entry t sd gd i1"
    and "\<forall>k \<in> set ks. entity_entry t ed k \<and> governor_entry t sd gd k"
  shows "\<exists>view' ids'. foldE (rel_step ed gd doc_id i1) ks (view, ids) = Inr (view', ids') \<and>
           (\<forall>i j. relations_between i j view' =
                    relations_between i j view +
                    length (filter (\<lambda>(a, b). a = i \<and> b = j \<and> linked sd a b) (map (Pair i1) ks))) \<and>
           relations view' =
             relations view + length (filter (\<lambda>(a, b). linked sd a b) (map (Pair i1) ks))"
  using assms(3)
proof (induction ks arbitrary: view ids)
  case Nil
  show ?case by simp
next
  case (Cons k ks)
  from Cons.prems have k: "entity_entry t ed k" "governor_entry t sd gd k"
    and rest: "\<forall>k \<in> set ks. entity_entry t ed k \<and> governor_entry t sd gd k"
    by simp_all
  from rel_step_count [OF assms(1) k(1) assms(2) k(2), of doc_id view ids]
  obtain v1 ids1 where 1: "rel_step ed gd doc_id i1 k (view, ids) = Inr (v1, ids1)"
    "\<And>i j. relations_between i j v1 =
        relations_between i j view + (if i = i1 \<and> j = k \<and> linked sd i1 k then 1 else 0)"
    "relations v1 = relations view + (if linked sd i1 k then 1 else 0)"
    by blast
  from Cons.IH [OF rest, of v1 ids1]
  obtain v2 ids2 where 2: "foldE (rel_step ed gd doc_id i1) ks (v1, ids1) = Inr (v2, ids2)"
    "\<And>i j. relations_between i j v2 =
        relations_between i j v1 +
        length (filter (\<lambda>(a, b). a = i \<and> b = j \<and> linked sd a b) (map (Pair i1) ks))"
    "relations v2 = relations v1 + length (filter (\<lambda>(a, b). linked sd a b) (map (Pair i1) ks))"
    by blast
  have "foldE (rel_step ed gd doc_id i1) (k # ks) (view, ids) = Inr (v2, ids2)"
    by (simp add: 1(1) 2(1))
  moreover have "relations_between i j v2 =
        relations_between i j view +
        length (filter (\<lambda>(a, b). a = i \<and> b = j \<and> linked sd a b) (map (Pair i1) (k # ks)))" for i j
    by (simp add: 1(2) 2(2))
  moreover have "relations v2 =
        relations view + length (filter (\<lambda>(a, b). linked sd a b) (map (Pair i1) (k # ks)))"
    by (simp add: 1(3) 2(3))
  ultimately show ?case by blast
qed

lemma rel_outer_count:
  assumes "\<forall>k \<in> set ks. entity_entry t ed k \<and> governor_entry t sd gd k"
    and "\<forall>k \<in> set ks1. entity_entry t ed k \<and> governor_entry t sd gd k"
  shows "\<exists>view' ids'. foldE (\<lambda>i1. foldE (rel_step ed gd doc_id i1) ks) ks1 (view, ids) = Inr (view', ids') \<and>
           (\<forall>i j. relations_between i j view' =
                    relations_between i j view +
                    length (filter (\<lambda>(a, b). a = i \<and> b = j \<and> linked sd a b) (List.product ks1 ks))) \<and>
           relations view' =
             relations view + length (filter (\<lambda>(a, b). linked sd a b) (List.product ks1 ks))"
  using assms(2)
proof (induction ks1 arbitrary: view ids)
  case Nil
  show ?case by simp
next
  case (Cons k ks1)
  from Cons.prems have k: "entity_entry t ed k" "governor_entry t sd gd k"
    and rest: "\<forall>k \<in> set ks1. entity_entry t ed k \<and> governor_entry t sd gd k"
    by simp_all
  from rel_inner_count [OF k assms(1), of doc_id view ids]
  obtain v1 ids1 where 1: "foldE (rel_step ed gd doc_id k) ks (view, ids) = Inr (v1, ids1)"
    "\<And>i j. relations_between i j v1 =
        relations_between i j view +
        length (filter (\<lambda>(a, b). a = i \<and> b = j \<and> linked sd a b) (map (Pair k) ks))"
    "relations v1 = relations view + length (filter (\<lambda>(a, b). linked sd a b) (map (Pair k) ks))"
    by blast
  from Cons.IH [OF rest, of v1 ids1]
  obtain v2 ids2 where 2:
    "foldE (\<lambda>i1. foldE (rel_step ed gd doc_id i1) ks) ks1 (v1, ids1) = Inr (v2, ids2)"
    "\<And>i j. relations_between i j v2 =
        relations_between i j v1 +
        length (filter (\<lambda>(a, b). a = i \<and> b = j \<and> linked sd a b) (List.product ks1 ks))"
    "relations v2 = relations v1 + length (filter (\<lambda>(a, b). linked sd a b) (List.product ks1 ks))"
    by blast
  have "foldE (\<lambda>i1. foldE (rel_step ed gd doc_id i1) ks) (k # ks1) (view, ids) = Inr (v2, ids2)"
    by (simp add: 1(1) 2(1))
  moreover have "relations_between i j v2 =
        relations_between i j view +
        length (filter (\<lambda>(a, b). a = i \<and> b = j \<and> linked sd a b) (List.product (k # ks1) ks))" for i j
    by (simp add: 1(2) 2(2))
  moreover have "relations v2 =
        relations view + length (filter (\<lambda>(a, b). linked sd a b) (List.product (k # ks1) ks))"
    by (simp add: 1(3) 2(3))
  ultimately show ?case by blast
qed

lemma count_pair_distinct:
  assumes "distinct ks"
  shows "length (filter (\<lambda>(a, b). a = i \<and> b = j \<and> P a b) (List.product ks ks)) =
           (if i \<in> set ks \<and> j \<in> set ks \<and> P i j then 1 else 0)"
proof -
  from assms have d: "distinct (List.product ks ks)" by (simp add: distinct_product)
  have "{x. (case x of (a, b) \<Rightarrow> a = i \<and> b = j \<and> P a b)} \<inter> set (List.product ks ks) =
          (if i \<in> set ks \<and> j \<in> set ks \<and> P i j then {(i, j)} else {})"
    by auto
  with distinct_length_filter [OF d, of "\<lambda>(a, b). a = i \<and> b = j \<and> P a b"]
  show ?thesis by simp
qed

lemma count_linked_distinct:
  assumes "distinct ks"
  shows "length (filter (\<lambda>(a, b). P a b) (List.product ks ks)) =
           card {(a, b). a \<in> set ks \<and> b \<in> set ks \<and> P a b}"
proof -
  from assms have d: "distinct (List.product ks ks)" by (simp add: distinct_product)
  have "{x. (case x of (a, b) \<Rightarrow> P a b)} \<inter> set (List.product ks ks) =
          {(a, b). a \<in> set ks \<and> b \<in> set ks \<and> P a b}"
    by auto
  with distinct_length_filter [OF d, of "\<lambda>(a, b). P a b"] show ?thesis by simp
qed

lemma rel_pass_count:
  assumes "distinct (dict_keys ed)"
    and "\<forall>k \<in> set (dict_keys ed). entity_entry t ed k \<and> governor_entry t sd gd k"
  shows "\<exists>view' ids'. rel_pass ed gd doc_id (view, ids) = Inr (view', ids') \<and>
           (\<forall>i j. relations_between i j view' =
                    relations_between i j view +
                    (if i \<in> set (dict_keys ed) \<and> j \<in> set (dict_keys ed) \<and> linked sd i j then 1 else 0)) \<and>
           relations view' =
             relations view +
             card {(a, b). a \<in> set (dict_keys ed) \<and> b \<in> set (dict_keys ed) \<and> linked sd a b}"
  using rel_outer_count [OF assms(2) assms(2), of doc_id view ids]
  by (simp add: rel_pass_def count_pair_distinct [OF assms(1)] count_linked_distinct [OF assms(1)])

lemma appends_refl: "appends Q v v"
  unfolding appends_def by (rule exI [of _ "[]"]) simp

lemma appends_trans: "appends Q a b \<Longrightarrow> appends Q b c \<Longrightarrow> appends Q a c"
proof -
  assume "appends Q a b" and "appends Q b c"
  then obtain n1 n2 where "b = a @ n1" "\<forall>x \<in> set n1. Q x" "c = b @ n2" "\<forall>x \<in> set n2. Q x"
    unfolding appends_def by blast
  then have "c = a @ (n1 @ n2)" "\<forall>x \<in> set (n1 @ n2). Q x" by auto
  then show ?thesis unfolding appends_def by blast
qed

lemma appends_add_type:
  "ty \<noteq> GENERIC_RELATION \<Longrightarrow>
     appends (\<lambda>a. at_type a \<noteq> GENERIC_RELATION) view (add_annotation view ty x d st en ps)"
proof -
  assume ty: "ty \<noteq> GENERIC_RELATION"
  obtain a where "add_annotation view ty x d st en ps = view @ [a]" "at_type a = ty"
    using add_annotation_snoc by blast
  with ty show ?thesis unfolding appends_def by (intro exI [of _ "[a]"]) simp
qed

lemma token_step_types:
  "appends (\<lambda>a. at_type a \<noteq> GENERIC_RELATION) (fst (snd s)) (fst (snd (token_step t doc_id nt s)))"
proof -
  obtain n tok where nt: "nt = (n, tok)" by (cases nt)
  obtain d view ids where s: "s = (d, view, ids)" by (cases s)
  obtain x ids' where n: "Identifiers_new ''t'' ids = (x, ids')" by (cases "Identifiers_new ''t'' ids")
  show ?thesis by (simp add: token_step_def nt s n Let_def appends_add_type)
qed

lemma span_step_types:
  assumes "span_step ty pfx t doc_id tok_idx sp s = Inr s'" and "ty \<noteq> GENERIC_RELATION"
  shows "appends (\<lambda>a. at_type a \<noteq> GENERIC_RELATION) (fst s) (fst s')"
proof -
  obtain view ids where s: "s = (view, ids)" by (cases s)
  obtain x ids' where n: "Identifiers_new pfx ids = (x, ids')" by (cases "Identifiers_new pfx ids")
  from assms(1) obtain p1 p2 where
    "s' = (add_annotation view ty x doc_id (Some p1) (Some p2) [(''text'', PStr (py_slice t p1 p2))], ids')"
    by (auto simp: span_step_def s n Let_def bindE_Inr)
  with assms(2) show ?thesis by (simp add: s appends_add_type)
qed

lemma ent_step_types:
  assumes "ent_step t doc_id tok_idx ent s = Inr s'"
  shows "appends (\<lambda>a. at_type a \<noteq> GENERIC_RELATION) (fst (snd s)) (fst (snd s'))"
proof -
  obtain d view ids where s: "s = (d, view, ids)" by (cases s)
  obtain x ids' where n: "Identifiers_new ''ne'' ids = (x, ids')" by (cases "Identifiers_new ''ne'' ids")
  from assms show ?thesis
    by (auto simp: ent_step_def s n Let_def bindE_Inr appends_refl appends_add_type
        split: option.splits)
qed

lemma dep_step_types:
  "appends (\<lambda>a. at_type a \<noteq> GENERIC_RELATION) (fst (snd s)) (fst (snd (dep_step t doc_id ed tok s)))"
proof -
  obtain d view ids where s: "s = (d, view, ids)" by (cases s)
  obtain x ids' where n: "Identifiers_new ''dep'' ids = (x, ids')" by (cases "Identifiers_new ''dep'' ids")
  show ?thesis by (simp add: dep_step_def s n Let_def appends_add_type)
qed

lemma token_pass_types:
  "appends (\<lambda>a. at_type a \<noteq> GENERIC_RELATION) (fst s0) (fst (snd (token_pass t doc_id sd s0)))"
proof -
  obtain view ids where s0: "s0 = (view, ids)" by (cases s0)
  have "True \<and> appends (\<lambda>a. at_type a \<noteq> GENERIC_RELATION) (fst (snd ([]::tokdict, view, ids)))
          (fst (snd (fold (token_step t doc_id) (enumerate 0 (tokens sd)) ([], view, ids))))"
    by (rule fold_rel [where P = "\<lambda>_. True"
          and R = "\<lambda>s s'. appends (\<lambda>a. at_type a \<noteq> GENERIC_RELATION) (fst (snd s)) (fst (snd s'))"])
      (simp_all add: token_step_types appends_refl, blast intro: appends_trans)
  then show ?thesis by (simp add: token_pass_def s0)
qed

lemma span_pass_types:
  assumes "foldE (span_step ty pfx t doc_id tok_idx) sps s = Inr s'" and "ty \<noteq> GENERIC_RELATION"
  shows "appends (\<lambda>a. at_type a \<noteq> GENERIC_RELATION) (fst s) (fst s')"
proof -
  have "True \<and> appends (\<lambda>a. at_type a \<noteq> GENERIC_RELATION) (fst s) (fst s')"
    by (rule foldE_rel [where P = "\<lambda>_. True"
          and R = "\<lambda>s s'. appends (\<lambda>a. at_type a \<noteq> GENERIC_RELATION) (fst s) (fst s')"
          and f = "span_step ty pfx t doc_id tok_idx", OF _ _ _ assms(1)])
      (simp_all add: span_step_types [OF _ assms(2)] appends_refl, blast intro: appends_trans)
  then show ?thesis by simp
qed

lemma ent_pass_types:
  assumes "ent_pass t doc_id tok_idx sd s = Inr (ed, s')"
  shows "appends (\<lambda>a. at_type a \<noteq> GENERIC_RELATION) (fst s) (fst s')"
proof -
  obtain view ids where s: "s = (view, ids)" by (cases s)
  from assms have f: "foldE (ent_step t doc_id tok_idx) (ents sd) ([], view, ids) = Inr (ed, s')"
    by (simp add: ent_pass_def s)
  have "True \<and> appends (\<lambda>a. at_type a \<noteq> GENERIC_RELATION)
                  (fst (snd ([]::propdict, view, ids))) (fst (snd (ed, s')))"
    by (rule foldE_rel [where P = "\<lambda>_. True"
          and R = "\<lambda>s s'. appends (\<lambda>a. at_type a \<noteq> GENERIC_RELATION) (fst (snd s)) (fst (snd s'))"
          and f = "ent_step t doc_id tok_idx", OF _ _ _ f])
      (simp_all add: ent_step_types appends_refl, blast intro: appends_trans)
  then show ?thesis by (simp add: s)
qed

lemma dep_pass_types:
  assumes "dep_pass t doc_id ed sd s = (gd, s')"
  shows "appends (\<lambda>a. at_type a \<noteq> GENERIC_RELATION) (fst s) (fst s')"
proof -
  obtain view ids where s: "s = (view, ids)" by (cases s)
  let ?r = "fold (dep_step t doc_id ed) (tokens sd) ([], view, ids)"
  from assms have r: "?r = (gd, s')" by (simp add: dep_pass_def s)
  have "True \<and> appends (\<lambda>a. at_type a \<noteq> GENERIC_RELATION)
                  (fst (snd ([]::propdict, view, ids))) (fst (snd ?r))"
    by (rule fold_rel [where P = "\<lambda>_. True"
          and R = "\<lambda>s s'. appends (\<lambda>a. at_type a \<noteq> GENERIC_RELATION) (fst (snd s)) (fst (snd s'))"])
      (simp_all add: dep_step_types appends_refl, blast intro: appends_trans)
  then show ?thesis by (simp add: r s)
qed

lemma appends_no_relations:
  assumes "appends (\<lambda>a. at_type a \<noteq> GENERIC_RELATION) v v'"
  shows "relations_between i j v' = relations_between i j v \<and> relations v' = relations v"
proof -
  from assms obtain new where n: "v' = v @ new" "\<forall>a \<in> set new. at_type a \<noteq> GENERIC_RELATION"
    unfolding appends_def by blast
  then have "filter (relation_between i j) new = []" "filter (\<lambda>a. at_type a = GENERIC_RELATION) new = []"
    by (auto simp: filter_empty_conv relation_between_def)
  with n(1) show ?thesis by (simp add: relations_between_def relations_def)
qed

lemma registries_after_passes:
  assumes "roots_in_doc sd"
    and "ent_pass t doc_id tok_idx sd s3 = Inr (ed, s4)"
    and "dep_pass t doc_id ed sd s4 = (gd, s5)"
  shows "distinct (dict_keys ed)" and "set (dict_keys ed) = set (entity_heads sd)"
    and "\<forall>k \<in> set (dict_keys ed). entity_entry t ed k \<and> governor_entry t sd gd k"
proof -
  from ent_pass_registry [OF assms(2)]
  have d: "distinct (dict_keys ed)" and e: "\<forall>k \<in> set (dict_keys ed). entity_entry t ed k"
    and h: "set (dict_keys ed) = set (entity_heads sd)"
    by simp_all
  from d show "distinct (dict_keys ed)" .
  from h show "set (dict_keys ed) = set (entity_heads sd)" .
  from e governor_registry [OF assms(1,3) h]
  show "\<forall>k \<in> set (dict_keys ed). entity_entry t ed k \<and> governor_entry t sd gd k" by blast
qed

lemma governor_entry_key: "governor_entry t sd gd k \<Longrightarrow> k \<in> set (dict_keys gd)"
  by (auto simp: governor_entry_def in_keys_iff)

lemma annotate_doc_count:
  assumes "roots_in_doc sd" and "annotate_doc t doc_id sd (view, ids) = Inr (view', ids')"
  shows "\<exists>new. view' = view @ new \<and>
           (\<forall>i1 i2. relations_between i1 i2 new =
              (if i1 \<in> set (entity_heads sd) \<and> i2 \<in> set (entity_heads sd) \<and> linked sd i1 i2
               then 1 else 0)) \<and>
           relations new =
             card {(i1, i2). i1 \<in> set (entity_heads sd) \<and> i2 \<in> set (entity_heads sd) \<and> linked sd i1 i2}"
proof -
  obtain tok_idx s1 where tp: "token_pass t doc_id sd (view, ids) = (tok_idx, s1)"
    by (cases "token_pass t doc_id sd (view, ids)")
  from assms(2) tp obtain s2 s3 ed s4 where
    c: "foldE (span_step NCHUNK ''nc'' t doc_id tok_idx) (noun_chunks sd) s1 = Inr s2"
    and st: "foldE (span_step SENTENCE ''s'' t doc_id tok_idx) (sents sd) s2 = Inr s3"
    and e: "ent_pass t doc_id tok_idx sd s3 = Inr (ed, s4)"
    and r: "(case dep_pass t doc_id ed sd s4 of (gd, s5) \<Rightarrow> rel_pass ed gd doc_id s5) = Inr (view', ids')"
    by (auto simp: annotate_doc_def bindE_Inr)
  obtain gd v5 ids5 where dp: "dep_pass t doc_id ed sd s4 = (gd, v5, ids5)"
    by (cases "dep_pass t doc_id ed sd s4") auto
  from r dp have rp: "rel_pass ed gd doc_id (v5, ids5) = Inr (view', ids')" by simp
  let ?Q = "\<lambda>a. at_type a \<noteq> GENERIC_RELATION"
  from token_pass_types [of "(view, ids)" t doc_id sd] tp have 1: "appends ?Q view (fst s1)" by simp
  have 2: "appends ?Q (fst s1) (fst s2)" by (rule span_pass_types [OF c]) simp
  have 3: "appends ?Q (fst s2) (fst s3)" by (rule span_pass_types [OF st]) simp
  note 4 = ent_pass_types [OF e]
  from dep_pass_types [OF dp] have 5: "appends ?Q (fst s4) v5" by simp
  from 1 2 3 4 5 have a5: "appends ?Q view v5" by (blast intro: appends_trans)
  note n5 = appends_no_relations [OF a5]
  from a5 obtain new5 where new5: "v5 = view @ new5" unfolding appends_def by blast
  from rel_pass_extends [OF rp] obtain rels where rels: "view' = v5 @ rels"
    unfolding extends_def by auto
  note regs = registries_after_passes [OF assms(1) e dp]
  from rel_pass_count [OF regs(1,3), of doc_id v5 ids5] rp
  have cnt: "\<And>i j. relations_between i j view' =
                relations_between i j v5 +
                (if i \<in> set (dict_keys ed) \<and> j \<in> set (dict_keys ed) \<and> linked sd i j then 1 else 0)"
    and tot: "relations view' =
                relations v5 +
                card {(a, b). a \<in> set (dict_keys ed) \<and> b \<in> set (dict_keys ed) \<and> linked sd a b}"
    by auto
  let ?new = "new5 @ rels"
  have v: "view' = view @ ?new" by (simp add: rels new5)
  have sp: "relations_between i j view' = relations_between i j view + relations_between i j ?new"
    "relations view' = relations view + relations ?new" for i j
    unfolding v by (simp_all add: relations_between_def relations_def)
  have "relations_between i j ?new =
          (if i \<in> set (entity_heads sd) \<and> j \<in> set (entity_heads sd) \<and> linked sd i j then 1 else 0)" for i j
    using cnt [of i j] sp(1) [of i j] n5 [of i j] by (simp add: regs(2))
  moreover have "relations ?new =
          card {(i1, i2). i1 \<in> set (entity_heads sd) \<and> i2 \<in> set (entity_heads sd) \<and> linked sd i1 i2}"
    using tot sp(2) n5 by (simp add: regs(2))
  ultimately show ?thesis using v by blast
qed

lemma ex_run_returns: "returns (add_tool_output ex_env ex_textdoc [] None Identifiers_reset)"
  by code_simp

lemma ex_doc_facts:
  "roots_in_doc ex_doc" "entity_heads ex_doc = [0, 2]"
  "governor_i ex_doc 0 = 1" "governor_i ex_doc 2 = 1"
  by code_simp+

lemma ex_registries:
  "(case ent_pass ''Jim loves PBS'' None ex_table ex_doc ([], Identifiers_reset) of
      Inl e \<Rightarrow> False
    | Inr (ed, s4) \<Rightarrow> ed = ex_entity_dict \<and>
        fst (dep_pass ''Jim loves PBS'' None ex_entity_dict ex_doc s4) = ex_governer_dict)"
  by code_simp


section \<open>Claim C3: identifiers are unique within a batch\<close>

text \<open>
  C3, as stated, quantifies over every sequence of calls of \<^verbatim>\<open>Identifiers.new\<close> after a
  reset. With a prefix that ends in a digit two calls can return the same string: after a
  reset, \<^verbatim>\<open>new("t1")\<close> returns \<^verbatim>\<open>"t11"\<close>, and so does the eleventh \<^verbatim>\<open>new("t")\<close>.
\<close>

theorem Identifiers_new_collision:
  "\<not> distinct (fst (news (''t1'' # replicate 11 ''t'') Identifiers_reset))"
  by code_simp

text \<open>
  C3 (amended): for every sequence of calls of \<^verbatim>\<open>Identifiers.new\<close> after a reset whose
  prefixes do not end in a decimal digit, the returned identifiers are pairwise distinct;
  \<^verbatim>\<open>_annotate\<close> resets the counters first, so its result does not depend on the counters it
  finds; and the identifiers of all annotations in the views that one successful call of
  \<^verbatim>\<open>_annotate\<close> adds are pairwise distinct.
\<close>

theorem Identifiers_new_unique_in_batch:
  "((\<forall>p \<in> set ps. no_digit_end p) \<longrightarrow> distinct (fst (news ps Identifiers_reset))) \<and>
   annotate E m ids = annotate_from E m Identifiers_reset \<and>
   (\<forall>m' ids'. annotate E m ids = Inr (m', ids') \<longrightarrow>
      (\<exists>vs. views m' = views m @ vs \<and> distinct (view_idents vs)))"
  using news_distinct [of ps] annotate_distinct [of E m ids]
  by (simp add: annotate_def)

theorem Identifiers_new_unique_in_batch_witness:
  "no_digit_end ''t'' \<and> no_digit_end ''nc'' \<and>
   distinct (fst (news [''t'', ''nc'', ''t''] Identifiers_reset)) \<and>
   (\<exists>m' ids' vs. annotate ex_env ex_mmif [''t'' \<mapsto> 7] = Inr (m', ids') \<and>
      views m' = views ex_mmif @ vs \<and> distinct (view_idents vs))"
proof -
  from ex_annotate_returns obtain m' ids' where
    r: "annotate ex_env ex_mmif [''t'' \<mapsto> 7] = Inr (m', ids')"
    by (auto simp: returns_iff)
  have p: "\<forall>p \<in> set [''t'', ''nc'', ''t'']. no_digit_end p"
    by (simp add: prefixes_no_digit)
  note t = Identifiers_new_unique_in_batch [of "[''t'', ''nc'', ''t'']" ex_env ex_mmif "[''t'' \<mapsto> 7]"]
  from t p have d: "distinct (fst (news [''t'', ''nc'', ''t''] Identifiers_reset))" by blast
  from t r obtain vs where "views m' = views ex_mmif @ vs" "distinct (view_idents vs)" by blast
  with r d prefixes_no_digit(1,2) show ?thesis by blast
qed

section \<open>Claim C2: offset alignment\<close>



section \<open>Claim C5: a failure in reading a remote document\<close>




section \<open>Claim C6: a failed entity-type lookup\<close>

text \<open>
  C6: when the entity-type lookup fails (no raw result, no \<^verbatim>\<open>'@types'\<close> entry, or an entry that
  is not a string), \<^verbatim>\<open>find_dbpedia_type\<close> returns \<^verbatim>\<open>None\<close>, and the entity's turn of the loop
  leaves the entity registry, the view and the counters as they were: no named-entity
  annotation, no registry entry.
\<close>

theorem lookup_failure_gives_no_category:
  "lookup_fails ent \<Longrightarrow>
     find_dbpedia_type ent = None \<and>
     ent_step text_orig doc_id tok_idx ent (entity_dict, view, ids) = Inr (entity_dict, view, ids)"
  by (auto simp: lookup_fails_def find_dbpedia_type_def ent_step_def
      split: option.splits json.splits)

theorem lookup_failure_gives_no_category_witness:
  "lookup_fails ex_unlinked_ent \<and>
   find_dbpedia_type ex_unlinked_ent = None \<and>
   ent_step ''Jim loves PBS'' None ex_table ex_unlinked_ent ([], [], Identifiers_reset) =
     Inr ([], [], Identifiers_reset)"
proof -
  have f: "lookup_fails ex_unlinked_ent"
    by (simp add: lookup_fails_def ex_unlinked_ent_def)
  from lookup_failure_gives_no_category [OF f] f show ?thesis by blast
qed

section \<open>Claim C7: an empty token-index range\<close>

text \<open>
  C7, as stated, says that the lookup faults for every empty range. In a document of three
  tokens the empty range \<open>[1, 1)\<close> finds both keys, 1 and 0, and the chunk is annotated with the
  inverted span (4, 3).
\<close>

theorem empty_range_no_fault:
  "span_offsets ex_table 1 1 = Inr (4, 3) \<and>
   returns (span_step NCHUNK ''nc'' ''Jim loves PBS'' None ex_table
              \<lparr>sp_start = 1, sp_end = 1\<rparr> ([], Identifiers_reset))"
  by (simp add: ex_table_eq span_offsets_def dict_get_def bindE_def span_step_def returns_def
      Let_def split: prod.splits)

text \<open>
  C7 (amended): with the table holding exactly the document's token indices, the lookup for
  an empty range \<open>[k, k)\<close> faults with a \<^verbatim>\<open>KeyError\<close> exactly when \<open>k \<le> 0\<close> or \<open>k\<close> is not less
  than the number of tokens; for \<open>0 < k < number of tokens\<close> it returns the start of
  token \<open>k\<close> and the end of token \<open>k - 1\<close>, and the annotation is made.
\<close>

theorem empty_range_lookup:
  "span_offsets (fst (token_pass text_orig doc_id sd s0)) k k =
     (if 0 < k \<and> k < int (length (tokens sd))
      then Inr (fst (token_span (tokens sd ! nat k)), snd (token_span (tokens sd ! nat (k - 1))))
      else Inl KeyError) \<and>
   (returns (span_step ty pfx text_orig doc_id (fst (token_pass text_orig doc_id sd s0))
               \<lparr>sp_start = k, sp_end = k\<rparr> s)
      \<longleftrightarrow> 0 < k \<and> k < int (length (tokens sd)))"
proof -
  let ?T = "fst (token_pass text_orig doc_id sd s0)"
  note 1 = span_offsets_empty [of text_orig doc_id sd s0 k]
  have 2: "returns (span_step ty pfx text_orig doc_id ?T \<lparr>sp_start = k, sp_end = k\<rparr> s)
             \<longleftrightarrow> returns (span_offsets ?T k k)"
    by (simp add: span_step_returns)
  have 3: "returns (span_offsets ?T k k) \<longleftrightarrow> 0 < k \<and> k < int (length (tokens sd))"
    by (simp add: 1 returns_def)
  from 1 2 3 show ?thesis by blast
qed

section \<open>Claim C4: the uncased pre-pass\<close>

text \<open>
  C4, as stated, has the pre-pass uppercase every character position covered by a token that
  the uncased model marks as part of an entity. The code uppercases only the character at the
  token's start offset: for \<^verbatim>\<open>Jim loves PBS\<close> with \<^verbatim>\<open>jim\<close> and \<^verbatim>\<open>pbs\<close> marked, the pipeline's
  input is \<^verbatim>\<open>Jim loves Pbs\<close>, where the specification's words give \<^verbatim>\<open>JIM loves PBS\<close>.
\<close>

theorem prepass_uppercases_whole_tokens_refuted:
  "uncased_prepass ex_env_uncased ''Jim loves PBS'' = Inr ''Jim loves Pbs'' \<and>
   spec_uncased_input ex_env_uncased ex_ner_tokens ''Jim loves PBS'' = ''JIM loves PBS''"
  by code_simp

text \<open>
  C4 (amended): when the uncased model is selected and the start offsets of the tokens it
  marks as part of an entity lie inside the lowercased text, the pre-pass produces the main
  pipeline's input by lowercasing the whole text and then uppercasing the character at the
  start offset of every such token (once per token that starts there); \<^verbatim>\<open>_add_tool_output\<close>
  then runs the main pipeline on that text and annotates with the original text.
\<close>

theorem uncased_prepass_truecases_token_starts:
  assumes "ner E = Some ner_model" and "ner_model (str_lower E text_orig) = Inr toks"
    and "\<forall>tok \<in> set toks. ner_ent_type tok \<noteq> [] \<longrightarrow>
           0 \<le> ner_idx tok \<and> ner_idx tok < int (length (str_lower E text_orig))"
    and "read_text E doc = Inr text_orig"
  shows "uncased_prepass E text_orig = Inr (truecased E toks text_orig) \<and>
         add_tool_output E doc view doc_id ids =
           bindE (nlp E (truecased E toks text_orig)) (\<lambda>sd. annotate_doc text_orig doc_id sd (view, ids))"
  using uncased_prepass_eq [OF assms(1-3)] assms(4)
  by (simp add: add_tool_output_def bindE_def)

theorem uncased_prepass_truecases_token_starts_witness:
  "ner ex_env_uncased = Some (\<lambda>_. Inr ex_ner_tokens) \<and>
   read_text ex_env_uncased ex_textdoc = Inr ''Jim loves PBS'' \<and>
   list_all (\<lambda>tok. 0 \<le> ner_idx tok \<and> ner_idx tok < 13) ex_ner_tokens \<and>
   uncased_prepass ex_env_uncased ''Jim loves PBS'' = Inr ''Jim loves Pbs'' \<and>
   add_tool_output ex_env_uncased ex_textdoc [] None Identifiers_reset =
     bindE (nlp ex_env_uncased ''Jim loves Pbs'')
       (\<lambda>sd. annotate_doc ''Jim loves PBS'' None sd ([], Identifiers_reset))"
proof -
  have n: "ner ex_env_uncased = Some (\<lambda>_. Inr ex_ner_tokens)"
    by (simp add: ex_env_uncased_def)
  have m: "(\<lambda>_. Inr ex_ner_tokens) (str_lower ex_env_uncased ''Jim loves PBS'') = Inr ex_ner_tokens"
    by simp
  have len: "length (str_lower ex_env_uncased ''Jim loves PBS'') = 13"
    by (simp add: ex_env_uncased_def ex_env_def ascii_lower_def)
  have la: "list_all (\<lambda>tok. 0 \<le> ner_idx tok \<and> ner_idx tok < 13) ex_ner_tokens"
    by (simp add: ex_ner_tokens_def)
  then have b: "\<forall>tok \<in> set ex_ner_tokens. ner_ent_type tok \<noteq> [] \<longrightarrow>
           0 \<le> ner_idx tok \<and> ner_idx tok < int (length (str_lower ex_env_uncased ''Jim loves PBS''))"
    by (simp add: len list_all_iff)
  have r: "read_text ex_env_uncased ex_textdoc = Inr ''Jim loves PBS''"
    by (simp add: read_text_def ex_textdoc_def)
  from uncased_prepass_truecases_token_starts [OF n m b r, of "[]" None Identifiers_reset]
  have "uncased_prepass ex_env_uncased ''Jim loves PBS'' = Inr ''Jim loves Pbs'' \<and>
   add_tool_output ex_env_uncased ex_textdoc [] None Identifiers_reset =
     bindE (nlp ex_env_uncased ''Jim loves Pbs'')
       (\<lambda>sd. annotate_doc ''Jim loves PBS'' None sd ([], Identifiers_reset))"
    by (simp only: ex_truecased)
  with n r la show ?thesis by blast
qed

section \<open>Claim C9: text attributes come from the original text\<close>



section \<open>Claim C1: one relation per linked pair of entity heads\<close>

text \<open>
  C1: when every entity's root is a token of the parsed document (which spaCy guarantees),
  a successful \<^verbatim>\<open>_add_tool_output\<close> appends, for the document \<open>sd\<close> that the pipeline returned,
  exactly one \<^verbatim>\<open>GENERIC_RELATION\<close> annotation from \<open>i1\<close> to \<open>i2\<close> for every two head positions
  \<open>i1 < i2\<close> of the entity registry whose governor index is the same, none for any other two
  positions (a different governor, the reverse order, or a position outside the registry),
  and no further relation annotation: their number is the number of such pairs. Nothing is
  deduplicated or ranked.
\<close>

theorem relations_one_per_linked_pair:
  assumes "add_tool_output E doc view doc_id ids = Inr (view', ids')"
    and "\<forall>txt sd. nlp E txt = Inr sd \<longrightarrow> roots_in_doc sd"
  shows "\<exists>sd new. (\<exists>txt. nlp E txt = Inr sd) \<and> view' = view @ new \<and>
           (\<forall>i1 i2. relations_between i1 i2 new =
              (if i1 \<in> set (entity_heads sd) \<and> i2 \<in> set (entity_heads sd) \<and>
                  i1 < i2 \<and> governor_i sd i1 = governor_i sd i2
               then 1 else 0)) \<and>
           relations new =
             card {(i1, i2). i1 \<in> set (entity_heads sd) \<and> i2 \<in> set (entity_heads sd) \<and>
                     i1 < i2 \<and> governor_i sd i1 = governor_i sd i2}"
proof -
  from assms(1) obtain t inp sd where sd: "nlp E inp = Inr sd"
    and a: "annotate_doc t doc_id sd (view, ids) = Inr (view', ids')"
    by (auto simp: add_tool_output_def bindE_Inr)
  from assms(2) sd have "roots_in_doc sd" by blast
  from annotate_doc_count [OF this a] sd show ?thesis
    unfolding linked_def by blast
qed

theorem relations_one_per_linked_pair_witness:
  "roots_in_doc ex_doc \<and>
   (\<exists>view' ids'. add_tool_output ex_env ex_textdoc [] None Identifiers_reset = Inr (view', ids') \<and>
      relations_between 0 2 view' = 1 \<and> relations_between 2 0 view' = 0 \<and>
      relations_between 0 0 view' = 0 \<and> relations view' = 1)"
proof -
  from ex_run_returns obtain view' ids' where
    r: "add_tool_output ex_env ex_textdoc [] None Identifiers_reset = Inr (view', ids')"
    by (auto simp: returns_iff)
  have n: "nlp ex_env inp = Inr ex_doc" for inp by (simp add: ex_env_def)
  then have w: "\<forall>txt sd. nlp ex_env txt = Inr sd \<longrightarrow> roots_in_doc sd"
    by (simp add: ex_doc_facts(1))
  from relations_one_per_linked_pair [OF r w] n
  have c: "\<And>i1 i2. relations_between i1 i2 view' =
              (if i1 \<in> set (entity_heads ex_doc) \<and> i2 \<in> set (entity_heads ex_doc) \<and>
                  i1 < i2 \<and> governor_i ex_doc i1 = governor_i ex_doc i2
               then 1 else 0)"
    and t: "relations view' =
             card {(i1, i2). i1 \<in> set (entity_heads ex_doc) \<and> i2 \<in> set (entity_heads ex_doc) \<and>
                     i1 < i2 \<and> governor_i ex_doc i1 = governor_i ex_doc i2}"
    by auto
  have "{(i1, i2). i1 \<in> set (entity_heads ex_doc) \<and> i2 \<in> set (entity_heads ex_doc) \<and>
                     i1 < i2 \<and> governor_i ex_doc i1 = governor_i ex_doc i2} = {(0, 2)}"
    by (auto simp: ex_doc_facts)
  with t have "relations view' = 1" by simp
  moreover from c [of 0 2] have "relations_between 0 2 view' = 1" by (simp add: ex_doc_facts)
  moreover from c [of 2 0] have "relations_between 2 0 view' = 0" by (simp add: ex_doc_facts)
  moreover from c [of 0 0] have "relations_between 0 0 view' = 0" by (simp add: ex_doc_facts)
  ultimately show ?thesis using r ex_doc_facts(1) by blast
qed

section \<open>Claim C8: the attributes of a relation record\<close>




section \<open>Claim C10: the relation loop finds every governor entry\<close>

text \<open>
  C10: when every entity's root is a token of the document, every key of the entity registry
  is a key of the governor registry after the dependency loop, and the relation loop returns
  without an exception.
\<close>

theorem governor_entry_for_every_entity:
  assumes "roots_in_doc sd"
    and "ent_pass text_orig doc_id tok_idx sd s3 = Inr (entity_dict, s4)"
    and "dep_pass text_orig doc_id entity_dict sd s4 = (governer_dict, s5)"
  shows "(\<forall>i \<in> set (dict_keys entity_dict). i \<in> set (dict_keys governer_dict)) \<and>
         returns (rel_pass entity_dict governer_dict doc_id s5)"
proof -
  note regs = registries_after_passes [OF assms]
  obtain v5 ids5 where s5: "s5 = (v5, ids5)" by (cases s5)
  from rel_pass_count [OF regs(1,3), of doc_id v5 ids5]
  have "returns (rel_pass entity_dict governer_dict doc_id s5)"
    by (auto simp: returns_iff s5)
  with regs(3) governor_entry_key show ?thesis by blast
qed

theorem governor_entry_for_every_entity_witness:
  "roots_in_doc ex_doc \<and>
   (\<exists>s4 s5. ent_pass ''Jim loves PBS'' None ex_table ex_doc ([], Identifiers_reset) = Inr (ex_entity_dict, s4) \<and>
      dep_pass ''Jim loves PBS'' None ex_entity_dict ex_doc s4 = (ex_governer_dict, s5) \<and>
      dict_keys ex_entity_dict = [0, 2] \<and> dict_keys ex_governer_dict = [0, 2] \<and>
      returns (rel_pass ex_entity_dict ex_governer_dict None s5))"
proof -
  from ex_registries obtain s4 where
    e: "ent_pass ''Jim loves PBS'' None ex_table ex_doc ([], Identifiers_reset) = Inr (ex_entity_dict, s4)"
    and g: "fst (dep_pass ''Jim loves PBS'' None ex_entity_dict ex_doc s4) = ex_governer_dict"
    by (auto split: sum.splits)
  from g obtain s5 where d: "dep_pass ''Jim loves PBS'' None ex_entity_dict ex_doc s4 = (ex_governer_dict, s5)"
    by (cases "dep_pass ''Jim loves PBS'' None ex_entity_dict ex_doc s4") auto
  have k: "dict_keys ex_entity_dict = [0, 2]" "dict_keys ex_governer_dict = [0, 2]"
    by (simp_all add: dict_keys_def ex_entity_dict_def ex_governer_dict_def)
  from governor_entry_for_every_entity [OF ex_doc_facts(1) e d]
  have "returns (rel_pass ex_entity_dict ex_governer_dict None s5)" by blast
  with e d k ex_doc_facts(1) show ?thesis by blast
qed

end
